theory Spec2Isabelle
  imports Complex_Main
begin

section \<open>Conventions of the embedding\<close>

text \<open>
  The analysis engine is Python. Its \<open>float\<close> values are modelled as \<^typ>\<open>real\<close> and its
  \<open>complex\<close> values as \<^typ>\<open>complex\<close>: rounding, overflow and NaN are outside the model.
  Every exception the modelled code can raise on such values is a value of \<open>error\<close>, and a
  function that can raise returns \<open>error + 'a\<close> with \<open>Inl\<close> for the exception.
\<close>

datatype error = ZeroDivisionError | KeyError | IndexError | ValueError | UnboundLocalError

definition bind_e :: "error + 'a \<Rightarrow> ('a \<Rightarrow> error + 'b) \<Rightarrow> error + 'b" where
  "bind_e m f = (case m of Inl e \<Rightarrow> Inl e | Inr x \<Rightarrow> f x)"

text \<open>Python's \<open>a / b\<close> on floats and on complex numbers raises on a zero divisor.\<close>

definition py_div :: "real \<Rightarrow> real \<Rightarrow> error + real" where
  "py_div a b = (if b = 0 then Inl ZeroDivisionError else Inr (a / b))"

definition py_cdiv :: "complex \<Rightarrow> complex \<Rightarrow> error + complex" where
  "py_cdiv a b = (if b = 0 then Inl ZeroDivisionError else Inr (a / b))"



section \<open>IEC 60909 short circuit (phase3/short_circuit.py)\<close>












section \<open>Per-unit system (phase3/per_unit.py)\<close>

text \<open>\<open>PerUnitBase\<close> with its two derived properties.\<close>

record PerUnitBase =
  voltage_kv :: real
  power_mva :: real

definition impedance_ohms :: "PerUnitBase \<Rightarrow> error + real" where
  "impedance_ohms b = py_div ((voltage_kv b) ^ 2 * 1000) (power_mva b)"

definition current_amps :: "PerUnitBase \<Rightarrow> error + real" where
  "current_amps b = py_div (power_mva b * 1000) (sqrt 3 * voltage_kv b)"

text \<open>
  \<open>PerUnitSystem\<close>: the base power and the dictionary of bases, one per voltage level,
  filled on first use. Every method that looks a base up returns the system it leaves behind.
\<close>

record PerUnitSystem =
  base_mva :: real
  voltage_bases :: "real \<rightharpoonup> PerUnitBase"

definition PerUnitSystem_init :: "real \<Rightarrow> PerUnitSystem" where
  "PerUnitSystem_init mva = \<lparr> base_mva = mva, voltage_bases = Map.empty \<rparr>"

definition add_voltage_level :: "PerUnitSystem \<Rightarrow> real \<Rightarrow> PerUnitBase \<times> PerUnitSystem" where
  "add_voltage_level s v =
     (case voltage_bases s v of
        None \<Rightarrow> (let b = \<lparr> voltage_kv = v, power_mva = base_mva s \<rparr>
                 in (b, s \<lparr> voltage_bases := (voltage_bases s)(v \<mapsto> b) \<rparr>))
      | Some b \<Rightarrow> (b, s))"

definition get_base :: "PerUnitSystem \<Rightarrow> real \<Rightarrow> PerUnitBase \<times> PerUnitSystem" where
  "get_base s v =
     (case voltage_bases s v of
        None \<Rightarrow> add_voltage_level s v
      | Some b \<Rightarrow> (b, s))"

definition impedance_to_pu ::
  "PerUnitSystem \<Rightarrow> complex \<Rightarrow> real \<Rightarrow> (error + complex) \<times> PerUnitSystem" where
  "impedance_to_pu s z_ohms v =
     (let (base, s') = get_base s v
      in (bind_e (impedance_ohms base) (\<lambda>z_base. py_cdiv z_ohms (of_real z_base)), s'))"

definition impedance_to_ohms ::
  "PerUnitSystem \<Rightarrow> complex \<Rightarrow> real \<Rightarrow> (error + complex) \<times> PerUnitSystem" where
  "impedance_to_ohms s z_pu v =
     (let (base, s') = get_base s v
      in (bind_e (impedance_ohms base) (\<lambda>z_base. Inr (z_pu * of_real z_base)), s'))"

text \<open>
  The dictionary of a system that was only ever filled by \<open>add_voltage_level\<close>: the base
  stored under a voltage level is the one built from that level and the system's base power.
\<close>

definition bases_consistent :: "PerUnitSystem \<Rightarrow> bool" where
  "bases_consistent s \<longleftrightarrow>
     (\<forall>v b. voltage_bases s v = Some b \<longrightarrow> b = \<lparr> voltage_kv = v, power_mva = base_mva s \<rparr>)"

section \<open>Admittance matrix (phase3/per_unit.py)\<close>

text \<open>
  A numpy matrix is a list of rows. \<open>add_at Y i j d\<close> is \<open>Y[i, j] += d\<close>; it is only used
  at indices taken from \<open>node_index\<close>, which are below the dimension.
\<close>

type_synonym cmatrix = "complex list list"



text \<open>
  \<open>{node: i for i, node in enumerate(nodes)}\<close>: a node listed twice keeps its last
  position.
\<close>

definition node_index_of :: "string list \<Rightarrow> string \<rightharpoonup> nat" where
  "node_index_of nodes = map_of (rev (zip nodes [0..<length nodes]))"








section \<open>Newton-Raphson load flow (phase3/load_flow.py)\<close>

datatype BusType = SLACK | PV | PQ

record Bus =
  bus_id :: string
  bus_type :: BusType
  p_specified :: real
  q_specified :: real
  v_specified :: real
  theta_specified :: real
  v_magnitude :: real
  v_angle :: real
  p_calculated :: real
  q_calculated :: real

record Branch =
  from_bus :: string
  to_bus :: string
  impedance :: complex
  p_from :: real
  q_from :: real
  p_to :: real
  q_to :: real
  p_loss :: real
  q_loss :: real

text \<open>\<open>max_mismatch\<close> starts as \<open>float('inf')\<close>.\<close>

datatype float_or_inf = Infinity | Finite real

text \<open>
  \<open>LoadFlowResult\<close>. The dictionary of buses is the list of its items in insertion order.
\<close>

record LoadFlowResult =
  converged :: bool
  iterations :: int
  max_mismatch :: float_or_inf
  result_buses :: "(string \<times> Bus) list"
  result_branches :: "Branch list"
  total_generation_p :: real
  total_generation_q :: real
  total_load_p :: real
  total_load_q :: real
  total_losses_p :: real
  total_losses_q :: real

text \<open>
  \<open>NewtonRaphsonLoadFlow\<close>: the constructor's arguments. What the constructor derives from
  them (\<open>n_buses\<close>, the three lists of buses by type, \<open>n_pq\<close>, \<open>n_pv\<close>) are functions of
  the record.
\<close>

type_synonym rmatrix = "real list list"

record NewtonRaphsonLoadFlow =
  buses :: "(string \<times> Bus) list"
  y_bus :: cmatrix
  bus_index :: "string \<rightharpoonup> int"
  max_iterations :: int
  tolerance :: real

definition bus_values :: "NewtonRaphsonLoadFlow \<Rightarrow> Bus list" where
  "bus_values lf = map snd (buses lf)"

definition n_buses :: "NewtonRaphsonLoadFlow \<Rightarrow> nat" where
  "n_buses lf = length (buses lf)"

definition slack_buses :: "NewtonRaphsonLoadFlow \<Rightarrow> Bus list" where
  "slack_buses lf = filter (\<lambda>b. bus_type b = SLACK) (bus_values lf)"

definition pv_buses :: "NewtonRaphsonLoadFlow \<Rightarrow> Bus list" where
  "pv_buses lf = filter (\<lambda>b. bus_type b = PV) (bus_values lf)"

definition pq_buses :: "NewtonRaphsonLoadFlow \<Rightarrow> Bus list" where
  "pq_buses lf = filter (\<lambda>b. bus_type b = PQ) (bus_values lf)"

definition n_pq :: "NewtonRaphsonLoadFlow \<Rightarrow> nat" where
  "n_pq lf = length (pq_buses lf)"

definition n_pv :: "NewtonRaphsonLoadFlow \<Rightarrow> nat" where
  "n_pv lf = length (pv_buses lf)"

text \<open>Loops whose body can raise: the first exception ends the loop.\<close>

fun fold_e :: "('a \<Rightarrow> 's \<Rightarrow> error + 's) \<Rightarrow> 'a list \<Rightarrow> 's \<Rightarrow> error + 's" where
  "fold_e f [] s = Inr s"
| "fold_e f (x # xs) s = bind_e (f x s) (fold_e f xs)"

fun map_e :: "('a \<Rightarrow> error + 'b) \<Rightarrow> 'a list \<Rightarrow> error + 'b list" where
  "map_e f [] = Inr []"
| "map_e f (x # xs) = bind_e (f x) (\<lambda>y. bind_e (map_e f xs) (\<lambda>ys. Inr (y # ys)))"

text \<open>
  A one-dimensional numpy array is a list; an index is a Python \<open>int\<close>, a negative one
  counting from the end, and an index outside \<open>[-n, n)\<close> raises \<open>IndexError\<close>.
\<close>

definition np_index :: "nat \<Rightarrow> int \<Rightarrow> error + nat" where
  "np_index n idx =
     (if 0 \<le> idx \<and> idx < int n then Inr (nat idx)
      else if - int n \<le> idx \<and> idx < 0 then Inr (nat (int n + idx))
      else Inl IndexError)"

definition np_get :: "real list \<Rightarrow> int \<Rightarrow> error + real" where
  "np_get xs idx = bind_e (np_index (length xs) idx) (\<lambda>i. Inr (xs ! i))"

definition np_set :: "real list \<Rightarrow> int \<Rightarrow> real \<Rightarrow> error + real list" where
  "np_set xs idx x = bind_e (np_index (length xs) idx) (\<lambda>i. Inr (xs[i := x]))"

text \<open>\<open>self.bus_index[bus.id]\<close>.\<close>

definition index_of :: "NewtonRaphsonLoadFlow \<Rightarrow> Bus \<Rightarrow> error + int" where
  "index_of lf bus =
     (case bus_index lf (bus_id bus) of None \<Rightarrow> Inl KeyError | Some idx \<Rightarrow> Inr idx)"

text \<open>
  The start of \<open>solve\<close>: a flat start, then the specified magnitude and angle of every slack
  bus and the specified magnitude of every PV bus.
\<close>

definition set_slack ::
  "NewtonRaphsonLoadFlow \<Rightarrow> Bus \<Rightarrow> real list \<times> real list \<Rightarrow> error + real list \<times> real list" where
  "set_slack lf bus = (\<lambda>(v, theta).
     bind_e (index_of lf bus) (\<lambda>idx.
     bind_e (np_set v idx (v_specified bus)) (\<lambda>v'.
     bind_e (np_set theta idx (theta_specified bus)) (\<lambda>theta'.
     Inr (v', theta')))))"

definition set_pv ::
  "NewtonRaphsonLoadFlow \<Rightarrow> Bus \<Rightarrow> real list \<times> real list \<Rightarrow> error + real list \<times> real list" where
  "set_pv lf bus = (\<lambda>(v, theta).
     bind_e (index_of lf bus) (\<lambda>idx.
     bind_e (np_set v idx (v_specified bus)) (\<lambda>v'.
     Inr (v', theta))))"

definition initial_state :: "NewtonRaphsonLoadFlow \<Rightarrow> error + real list \<times> real list" where
  "initial_state lf =
     (let v = replicate (n_buses lf) 1; theta = replicate (n_buses lf) 0
      in bind_e (fold_e (set_slack lf) (slack_buses lf) (v, theta))
           (fold_e (set_pv lf) (pv_buses lf)))"

text \<open>
  \<open>_calculate_power\<close>. \<open>self.y_bus[i, j]\<close> raises \<open>IndexError\<close> outside the matrix, and so
  do \<open>theta[i]\<close> and \<open>v[i]\<close> beyond the arrays; \<open>np.angle\<close> is the principal argument in
  \<open>(-\<pi>, \<pi>]\<close>, zero at zero.
\<close>

definition y_at :: "cmatrix \<Rightarrow> nat \<Rightarrow> nat \<Rightarrow> error + complex" where
  "y_at Y i j = (if i < length Y \<and> j < length (Y ! i) then Inr (Y ! i ! j) else Inl IndexError)"

definition power_term ::
  "NewtonRaphsonLoadFlow \<Rightarrow> real list \<Rightarrow> real list \<Rightarrow> nat \<Rightarrow> nat \<Rightarrow> real \<times> real
     \<Rightarrow> error + real \<times> real" where
  "power_term lf v theta i j = (\<lambda>(p_i, q_i).
     bind_e (y_at (y_bus lf) i j) (\<lambda>y.
     if i < length theta \<and> j < length theta \<and> i < length v \<and> j < length v
     then let y_mag = cmod y;
              y_angle = Arg y;
              theta_ij = theta ! i - theta ! j - y_angle
          in Inr (p_i + v ! i * v ! j * y_mag * cos theta_ij,
                  q_i + v ! i * v ! j * y_mag * sin theta_ij)
     else Inl IndexError))"

definition calculate_power ::
  "NewtonRaphsonLoadFlow \<Rightarrow> real list \<Rightarrow> real list \<Rightarrow> error + real list \<times> real list" where
  "calculate_power lf v theta =
     (let n = n_buses lf
      in bind_e (map_e (\<lambda>i. fold_e (power_term lf v theta i) [0..<n] (0, 0)) [0..<n]) (\<lambda>pq.
         Inr (map fst pq, map snd pq)))"

text \<open>The mismatch arrays \<open>delta_p\<close> and \<open>delta_q\<close> of one iteration.\<close>

definition mismatch_step ::
  "NewtonRaphsonLoadFlow \<Rightarrow> real list \<Rightarrow> real list \<Rightarrow> Bus \<Rightarrow> real list \<times> real list
     \<Rightarrow> error + real list \<times> real list" where
  "mismatch_step lf p_calc q_calc bus = (\<lambda>(delta_p, delta_q).
     bind_e (index_of lf bus) (\<lambda>idx.
     bind_e (if bus_type bus \<noteq> SLACK
             then bind_e (np_get p_calc idx) (\<lambda>pc. np_set delta_p idx (p_specified bus - pc))
             else Inr delta_p) (\<lambda>delta_p'.
     bind_e (if bus_type bus = PQ
             then bind_e (np_get q_calc idx) (\<lambda>qc. np_set delta_q idx (q_specified bus - qc))
             else Inr delta_q) (\<lambda>delta_q'.
     Inr (delta_p', delta_q')))))"

definition power_mismatch ::
  "NewtonRaphsonLoadFlow \<Rightarrow> real list \<Rightarrow> real list \<Rightarrow> error + real list \<times> real list" where
  "power_mismatch lf p_calc q_calc =
     fold_e (mismatch_step lf p_calc q_calc) (bus_values lf)
       (replicate (n_buses lf) 0, replicate (n_buses lf) 0)"

text \<open>\<open>np.max(np.abs(a))\<close>: \<open>ValueError\<close> on an empty array.\<close>

definition np_max_abs :: "real list \<Rightarrow> error + real" where
  "np_max_abs xs =
     (case xs of [] \<Rightarrow> Inl ValueError | x # rest \<Rightarrow> Inr (fold max (map abs rest) \<bar>x\<bar>))"

definition max_abs_mismatch :: "real list \<Rightarrow> real list \<Rightarrow> error + real" where
  "max_abs_mismatch delta_p delta_q =
     bind_e (np_max_abs delta_p) (\<lambda>mp.
     bind_e (np_max_abs delta_q) (\<lambda>mq.
     Inr (max mp mq)))"

text \<open>
  \<open>_build_jacobian\<close>: \<open>np.zeros\<close> of a negative size raises \<open>ValueError\<close>; the loop writes
  \<open>10.0\<close> on the diagonal and \<open>-1.0\<close> beside it. The arguments \<open>v\<close> and \<open>theta\<close> are not read.
\<close>

definition set_at :: "rmatrix \<Rightarrow> nat \<Rightarrow> nat \<Rightarrow> real \<Rightarrow> rmatrix" where
  "set_at J i j x = J[i := (J ! i)[j := x]]"

definition jacobian_step :: "nat \<Rightarrow> nat \<Rightarrow> rmatrix \<Rightarrow> rmatrix" where
  "jacobian_step j_size i jacobian =
     (let J1 = set_at jacobian i i 10.0
      in if i > 0 \<and> i < j_size
         then set_at (set_at J1 i (i - 1) (- 1.0)) (i - 1) i (- 1.0)
         else J1)"

definition build_jacobian ::
  "NewtonRaphsonLoadFlow \<Rightarrow> real list \<Rightarrow> real list \<Rightarrow> error + rmatrix" where
  "build_jacobian lf v theta =
     (let n = int (n_buses lf);
          n_theta = n - 1;
          n_v = int (n_pq lf);
          j_size = n_theta + n_v
      in if j_size < 0 then Inl ValueError
         else Inr (fold (jacobian_step (nat j_size)) [0..<nat j_size]
                     (replicate (nat j_size) (replicate (nat j_size) 0))))"

text \<open>\<open>_build_mismatch_vector\<close>.\<close>

definition build_mismatch_vector ::
  "NewtonRaphsonLoadFlow \<Rightarrow> real list \<Rightarrow> real list \<Rightarrow> error + real list" where
  "build_mismatch_vector lf delta_p delta_q =
     bind_e (map_e (\<lambda>bus. bind_e (index_of lf bus) (np_get delta_p))
               (filter (\<lambda>b. bus_type b \<noteq> SLACK) (bus_values lf))) (\<lambda>ps.
     bind_e (map_e (\<lambda>bus. bind_e (index_of lf bus) (np_get delta_q)) (pq_buses lf)) (\<lambda>qs.
     Inr (ps @ qs)))"

text \<open>
  \<open>_update_state\<close>: the corrections \<open>delta_x[:n_theta]\<close> go to the angles of the non-slack
  buses and \<open>delta_x[n_theta:]\<close> to the magnitudes of the PQ buses, in the order of the
  buses, each read \<open>delta_theta[idx]\<close> raising \<open>IndexError\<close> beyond the slice.
\<close>

fun update_angles ::
  "NewtonRaphsonLoadFlow \<Rightarrow> real list \<Rightarrow> Bus list \<Rightarrow> nat \<Rightarrow> real list \<Rightarrow> error + real list" where
  "update_angles lf delta_theta [] idx theta = Inr theta"
| "update_angles lf delta_theta (bus # rest) idx theta =
     (if bus_type bus \<noteq> SLACK
      then bind_e (index_of lf bus) (\<lambda>bus_idx.
           bind_e (np_get theta bus_idx) (\<lambda>old.
           bind_e (np_get delta_theta (int idx)) (\<lambda>d.
           bind_e (np_set theta bus_idx (old + d)) (\<lambda>theta'.
           update_angles lf delta_theta rest (idx + 1) theta'))))
      else update_angles lf delta_theta rest idx theta)"

fun update_magnitudes ::
  "NewtonRaphsonLoadFlow \<Rightarrow> real list \<Rightarrow> Bus list \<Rightarrow> nat \<Rightarrow> real list \<Rightarrow> error + real list" where
  "update_magnitudes lf delta_v [] idx v = Inr v"
| "update_magnitudes lf delta_v (bus # rest) idx v =
     bind_e (index_of lf bus) (\<lambda>bus_idx.
     bind_e (np_get v bus_idx) (\<lambda>old.
     bind_e (np_get delta_v (int idx)) (\<lambda>d.
     bind_e (np_set v bus_idx (old + d)) (\<lambda>v'.
     update_magnitudes lf delta_v rest (idx + 1) v'))))"

definition update_state ::
  "NewtonRaphsonLoadFlow \<Rightarrow> real list \<Rightarrow> real list \<Rightarrow> real list
     \<Rightarrow> error + real list \<times> real list" where
  "update_state lf v theta delta_x =
     (let n_theta = n_buses lf - 1;
          delta_theta = take n_theta delta_x;
          delta_v = drop n_theta delta_x
      in bind_e (update_angles lf delta_theta (bus_values lf) 0 theta) (\<lambda>theta'.
         bind_e (update_magnitudes lf delta_v (pq_buses lf) 0 v) (\<lambda>v'.
         Inr (v', theta'))))"

text \<open>\<open>_compile_results\<close>, on the buses as the solver left them.\<close>

definition compile_results ::
  "(string \<times> Bus) list \<Rightarrow> bool \<Rightarrow> int \<Rightarrow> float_or_inf \<Rightarrow> LoadFlowResult" where
  "compile_results bs conv its mm =
     (let total_gen_p = sum_list (map p_calculated (filter (\<lambda>b. p_calculated b > 0) (map snd bs)));
          total_gen_q = sum_list (map q_calculated (filter (\<lambda>b. q_calculated b > 0) (map snd bs)));
          total_ld_p = sum_list (map (\<lambda>b. \<bar>p_calculated b\<bar>)
                                  (filter (\<lambda>b. p_calculated b < 0) (map snd bs)));
          total_ld_q = sum_list (map (\<lambda>b. \<bar>q_calculated b\<bar>)
                                  (filter (\<lambda>b. q_calculated b < 0) (map snd bs)));
          total_loss_p = total_gen_p - total_ld_p;
          total_loss_q = total_gen_q - total_ld_q
      in \<lparr> converged = conv,
           iterations = its,
           max_mismatch = mm,
           result_buses = bs,
           result_branches = [],
           total_generation_p = total_gen_p,
           total_generation_q = total_gen_q,
           total_load_p = total_ld_p,
           total_load_q = total_ld_q,
           total_losses_p = total_loss_p,
           total_losses_q = total_loss_q \<rparr>)"

text \<open>
  The local variables of \<open>solve\<close> that live across iterations. \<open>st_calc\<close> is \<open>p_calc, q_calc\<close>,
  unbound until the loop body has run once.
\<close>

record solve_state =
  st_v :: "real list"
  st_theta :: "real list"
  st_converged :: bool
  st_iteration :: int
  st_max_mismatch :: float_or_inf
  st_calc :: "(real list \<times> real list) option"

text \<open>
  The loop \<open>for iteration in range(1, self.max_iterations + 1)\<close>, over the list of the
  iteration numbers still to run. \<open>np.linalg.solve\<close> belongs to numpy, not to the repository:
  it is the parameter \<open>linalg_solve\<close>, \<open>None\<close> standing for \<open>LinAlgError\<close> (a singular
  Jacobian), which the loop answers by \<open>break\<close>; a right-hand side of the wrong length makes
  numpy raise \<open>ValueError\<close>.
\<close>

fun nr_loop ::
  "(rmatrix \<Rightarrow> real list \<Rightarrow> real list option) \<Rightarrow> NewtonRaphsonLoadFlow \<Rightarrow> int list
     \<Rightarrow> solve_state \<Rightarrow> error + solve_state" where
  "nr_loop linalg_solve lf [] st = Inr st"
| "nr_loop linalg_solve lf (iteration # rest) st =
     bind_e (calculate_power lf (st_v st) (st_theta st)) (\<lambda>(p_calc, q_calc).
     bind_e (power_mismatch lf p_calc q_calc) (\<lambda>(delta_p, delta_q).
     bind_e (max_abs_mismatch delta_p delta_q) (\<lambda>mm.
     let st1 = st \<lparr> st_iteration := iteration, st_max_mismatch := Finite mm,
                    st_calc := Some (p_calc, q_calc) \<rparr>
     in if mm < tolerance lf then Inr (st1 \<lparr> st_converged := True \<rparr>)
        else bind_e (build_jacobian lf (st_v st) (st_theta st)) (\<lambda>jacobian.
             bind_e (build_mismatch_vector lf delta_p delta_q) (\<lambda>mismatch.
             if length mismatch \<noteq> length jacobian then Inl ValueError
             else case linalg_solve jacobian mismatch of
                    None \<Rightarrow> Inr st1
                  | Some delta_x \<Rightarrow>
                      bind_e (update_state lf (st_v st) (st_theta st) delta_x) (\<lambda>(v', theta').
                      nr_loop linalg_solve lf rest
                        (st1 \<lparr> st_v := v', st_theta := theta' \<rparr>)))))))"

text \<open>Storing the final state in the buses (the loop after the iteration).\<close>

definition store_bus ::
  "NewtonRaphsonLoadFlow \<Rightarrow> solve_state \<Rightarrow> Bus \<Rightarrow> error + Bus" where
  "store_bus lf st bus =
     bind_e (index_of lf bus) (\<lambda>idx.
     bind_e (np_get (st_v st) idx) (\<lambda>vm.
     bind_e (np_get (st_theta st) idx) (\<lambda>va.
     case st_calc st of
       None \<Rightarrow> Inl UnboundLocalError
     | Some (p_calc, q_calc) \<Rightarrow>
         bind_e (np_get p_calc idx) (\<lambda>pc.
         bind_e (np_get q_calc idx) (\<lambda>qc.
         Inr (bus \<lparr> v_magnitude := vm, v_angle := va,
                    p_calculated := pc, q_calculated := qc \<rparr>))))))"

definition store_results ::
  "NewtonRaphsonLoadFlow \<Rightarrow> solve_state \<Rightarrow> error + (string \<times> Bus) list" where
  "store_results lf st =
     map_e (\<lambda>(k, bus). bind_e (store_bus lf st bus) (\<lambda>bus'. Inr (k, bus'))) (buses lf)"

text \<open>\<open>NewtonRaphsonLoadFlow.solve\<close>.\<close>

definition solve ::
  "(rmatrix \<Rightarrow> real list \<Rightarrow> real list option) \<Rightarrow> NewtonRaphsonLoadFlow
     \<Rightarrow> error + LoadFlowResult" where
  "solve linalg_solve lf =
     bind_e (initial_state lf) (\<lambda>(v, theta).
     bind_e (nr_loop linalg_solve lf [1..max_iterations lf]
               \<lparr> st_v = v, st_theta = theta, st_converged = False, st_iteration = 0,
                 st_max_mismatch = Infinity, st_calc = None \<rparr>) (\<lambda>st.
     bind_e (store_results lf st) (\<lambda>bs.
     Inr (compile_results bs (st_converged st) (st_iteration st) (st_max_mismatch st)))))"

text \<open>
  The first power mismatch \<open>solve\<close> computes: the maximum absolute mismatch of the initial
  state.
\<close>

definition first_mismatch :: "NewtonRaphsonLoadFlow \<Rightarrow> error + real" where
  "first_mismatch lf =
     bind_e (initial_state lf) (\<lambda>(v, theta).
     bind_e (calculate_power lf v theta) (\<lambda>(p_calc, q_calc).
     bind_e (power_mismatch lf p_calc q_calc) (\<lambda>(delta_p, delta_q).
     max_abs_mismatch delta_p delta_q)))"

text \<open>
  A bus carries the magnitude and the angle that a state holds at the bus's index; two items
  of the bus dictionary agree on the key and on everything that was specified.
\<close>

definition bus_at_state :: "NewtonRaphsonLoadFlow \<Rightarrow> real list \<Rightarrow> real list \<Rightarrow> Bus \<Rightarrow> bool" where
  "bus_at_state lf v theta bus =
     (case index_of lf bus of
        Inl e \<Rightarrow> False
      | Inr idx \<Rightarrow> np_get v idx = Inr (v_magnitude bus) \<and> np_get theta idx = Inr (v_angle bus))"

definition same_specification :: "string \<times> Bus \<Rightarrow> string \<times> Bus \<Rightarrow> bool" where
  "same_specification kb kb' \<longleftrightarrow>
     fst kb' = fst kb \<and> bus_id (snd kb') = bus_id (snd kb) \<and>
     bus_type (snd kb') = bus_type (snd kb) \<and>
     p_specified (snd kb') = p_specified (snd kb) \<and>
     q_specified (snd kb') = q_specified (snd kb) \<and>
     v_specified (snd kb') = v_specified (snd kb) \<and>
     theta_specified (snd kb') = theta_specified (snd kb)"

text \<open>The index of a bus is a key of \<open>bus_index\<close> and lies within the arrays.\<close>

definition valid_index :: "NewtonRaphsonLoadFlow \<Rightarrow> Bus \<Rightarrow> bool" where
  "valid_index lf bus \<longleftrightarrow>
     (\<exists>idx i. index_of lf bus = Inr idx \<and> np_index (n_buses lf) idx = Inr i)"

text \<open>
  The calculated real power at one bus, as a function of the state (zero where
  \<open>_calculate_power\<close> raises).
\<close>

definition calculated_p :: "NewtonRaphsonLoadFlow \<Rightarrow> real list \<Rightarrow> real list \<Rightarrow> nat \<Rightarrow> real" where
  "calculated_p lf v theta i =
     (case calculate_power lf v theta of Inl e \<Rightarrow> 0 | Inr (p, q) \<Rightarrow> p ! i)"

text \<open>A linear solver that reports every matrix as singular.\<close>

definition singular_solver :: "rmatrix \<Rightarrow> real list \<Rightarrow> real list option" where
  "singular_solver jacobian mismatch = None"

text \<open>
  Two buses joined by a lossless line of reactance 1 p.u., with no load: the flat start
  already solves it.
\<close>

definition lossless_line :: NewtonRaphsonLoadFlow where
  "lossless_line =
     \<lparr> buses =
         [(''1'', \<lparr> bus_id = ''1'', bus_type = SLACK, p_specified = 0, q_specified = 0,
                   v_specified = 1, theta_specified = 0, v_magnitude = 1, v_angle = 0,
                   p_calculated = 0, q_calculated = 0 \<rparr>),
          (''2'', \<lparr> bus_id = ''2'', bus_type = PQ, p_specified = 0, q_specified = 0,
                   v_specified = 1, theta_specified = 0, v_magnitude = 1, v_angle = 0,
                   p_calculated = 0, q_calculated = 0 \<rparr>)],
       y_bus = [[- \<i>, \<i>], [\<i>, - \<i>]],
       bus_index = [''1'' \<mapsto> 0, ''2'' \<mapsto> 1],
       max_iterations = 20,
       tolerance = 1 / 10 ^ 6 \<rparr>"

text \<open>
  The three-bus system of the module's own example, for a slack voltage \<open>v_slack\<close>: the
  module runs it at 1.0 p.u.
\<close>

definition three_bus_example :: "real \<Rightarrow> NewtonRaphsonLoadFlow" where
  "three_bus_example v_slack =
     \<lparr> buses =
         [(''1'', \<lparr> bus_id = ''1'', bus_type = SLACK, p_specified = 0, q_specified = 0,
                   v_specified = v_slack, theta_specified = 0, v_magnitude = 1, v_angle = 0,
                   p_calculated = 0, q_calculated = 0 \<rparr>),
          (''2'', \<lparr> bus_id = ''2'', bus_type = PQ, p_specified = - 0.5, q_specified = - 0.2,
                   v_specified = 1, theta_specified = 0, v_magnitude = 1, v_angle = 0,
                   p_calculated = 0, q_calculated = 0 \<rparr>),
          (''3'', \<lparr> bus_id = ''3'', bus_type = PQ, p_specified = - 0.3, q_specified = - 0.1,
                   v_specified = 1, theta_specified = 0, v_magnitude = 1, v_angle = 0,
                   p_calculated = 0, q_calculated = 0 \<rparr>)],
       y_bus = [[Complex 10 (- 30), Complex (- 5) 15, Complex (- 5) 15],
                [Complex (- 5) 15, Complex 10 (- 30), Complex (- 5) 15],
                [Complex (- 5) 15, Complex (- 5) 15, Complex 10 (- 30)]],
       bus_index = [''1'' \<mapsto> 0, ''2'' \<mapsto> 1, ''3'' \<mapsto> 2],
       max_iterations = 20,
       tolerance = 1 / 10 ^ 6 \<rparr>"

definition example_solver :: NewtonRaphsonLoadFlow where
  "example_solver = three_bus_example 1"



section \<open>Topology graph (phase2/topology.py)\<close>

record TopologyNode =
  node_id :: string
  node_type :: string
  tag :: string
  voltage_level :: real
  properties :: "(string \<times> string) list"
  upstream_nodes :: "string list"
  downstream_nodes :: "string list"
  level :: int
  bus_name :: "string option"

record TopologyEdge =
  edge_id :: string
  source_id :: string
  target_id :: string
  cable_id :: "string option"
  edge_impedance :: complex
  edge_length :: real

text \<open>
  \<open>TopologyGraph\<close>. The two adjacency dictionaries are \<open>defaultdict(list)\<close>: they are lists of
  items in insertion order, and a key that is read with \<open>[]\<close> and is missing gets an empty list.
\<close>

type_synonym adjacency_dict = "(string \<times> string list) list"

record TopologyGraph =
  graph_nodes :: "string \<rightharpoonup> TopologyNode"
  graph_edges :: "string \<rightharpoonup> TopologyEdge"
  adjacency :: adjacency_dict
  reverse_adjacency :: adjacency_dict
  graph_buses :: "(string \<times> string set) list"
  sources :: "string list"

definition TopologyGraph_init :: TopologyGraph where
  "TopologyGraph_init =
     \<lparr> graph_nodes = Map.empty, graph_edges = Map.empty, adjacency = [],
       reverse_adjacency = [], graph_buses = [], sources = [] \<rparr>"

text \<open>\<open>d.get(k, [])\<close>, \<open>d[k]\<close> (which inserts a missing key) and \<open>d[k] = xs\<close>.\<close>

definition adjacency_get :: "adjacency_dict \<Rightarrow> string \<Rightarrow> string list" where
  "adjacency_get d k = (case map_of d k of None \<Rightarrow> [] | Some xs \<Rightarrow> xs)"

definition adjacency_touch :: "adjacency_dict \<Rightarrow> string \<Rightarrow> adjacency_dict" where
  "adjacency_touch d k = (if k \<in> fst ` set d then d else d @ [(k, [])])"

definition adjacency_put :: "adjacency_dict \<Rightarrow> string \<Rightarrow> string list \<Rightarrow> adjacency_dict" where
  "adjacency_put d k xs = map (\<lambda>(k', ys). if k' = k then (k', xs) else (k', ys)) (adjacency_touch d k)"

definition adjacency_append :: "adjacency_dict \<Rightarrow> string \<Rightarrow> string \<Rightarrow> adjacency_dict" where
  "adjacency_append d k x = adjacency_put d k (adjacency_get d k @ [x])"

text \<open>\<open>TopologyGraph.add_node\<close>: a node of type Source is registered and put at level 0.\<close>

definition add_node :: "TopologyGraph \<Rightarrow> TopologyNode \<Rightarrow> TopologyGraph" where
  "add_node g node =
     (if node_type node = ''Source''
      then g \<lparr> graph_nodes := (graph_nodes g)(node_id node \<mapsto> node \<lparr> level := 0 \<rparr>),
               sources := sources g @ [node_id node] \<rparr>
      else g \<lparr> graph_nodes := (graph_nodes g)(node_id node \<mapsto> node) \<rparr>)"

text \<open>\<open>TopologyGraph.add_edge\<close>.\<close>

definition add_edge :: "TopologyGraph \<Rightarrow> TopologyEdge \<Rightarrow> TopologyGraph" where
  "add_edge g edge =
     (let g1 = g \<lparr> graph_edges := (graph_edges g)(edge_id edge \<mapsto> edge),
                   adjacency := adjacency_append (adjacency g) (source_id edge) (target_id edge),
                   reverse_adjacency :=
                     adjacency_append (reverse_adjacency g) (target_id edge) (source_id edge) \<rparr>
      in case (graph_nodes g (source_id edge), graph_nodes g (target_id edge)) of
           (Some s, Some t) \<Rightarrow>
             (let ns1 = (graph_nodes g)(source_id edge \<mapsto>
                          s \<lparr> downstream_nodes := downstream_nodes s @ [target_id edge] \<rparr>)
              in case ns1 (target_id edge) of
                   None \<Rightarrow> g1 \<lparr> graph_nodes := ns1 \<rparr>
                 | Some t1 \<Rightarrow>
                     g1 \<lparr> graph_nodes := ns1(target_id edge \<mapsto>
                            t1 \<lparr> upstream_nodes := upstream_nodes t1 @ [source_id edge] \<rparr>) \<rparr>)
         | _ \<Rightarrow> g1)"

text \<open>\<open>TopologyGraph.remove_edge\<close>; \<open>list.remove\<close> drops the first occurrence.\<close>

definition remove_edge :: "TopologyGraph \<Rightarrow> string \<Rightarrow> TopologyGraph" where
  "remove_edge g eid =
     (case graph_edges g eid of
        None \<Rightarrow> g
      | Some edge \<Rightarrow>
          (let adj1 = adjacency_touch (adjacency g) (source_id edge);
               adj2 = adjacency_put adj1 (source_id edge)
                        (remove1 (target_id edge) (adjacency_get adj1 (source_id edge)));
               radj1 = adjacency_touch (reverse_adjacency g) (target_id edge);
               radj2 = adjacency_put radj1 (target_id edge)
                         (remove1 (source_id edge) (adjacency_get radj1 (target_id edge)));
               ns1 = (case graph_nodes g (source_id edge) of
                        None \<Rightarrow> graph_nodes g
                      | Some s \<Rightarrow> (graph_nodes g)(source_id edge \<mapsto>
                          s \<lparr> downstream_nodes := remove1 (target_id edge) (downstream_nodes s) \<rparr>));
               ns2 = (case ns1 (target_id edge) of
                        None \<Rightarrow> ns1
                      | Some t \<Rightarrow> ns1(target_id edge \<mapsto>
                          t \<lparr> upstream_nodes := remove1 (source_id edge) (upstream_nodes t) \<rparr>))
           in g \<lparr> graph_nodes := ns2, graph_edges := (graph_edges g)(eid := None),
                  adjacency := adj2, reverse_adjacency := radj2 \<rparr>))"

text \<open>
  \<open>TopologyGraph.calculate_network_levels\<close>. First every node that is not of type Source is
  put at level -1.
\<close>

definition reset_levels :: "(string \<rightharpoonup> TopologyNode) \<Rightarrow> (string \<rightharpoonup> TopologyNode)" where
  "reset_levels ns =
     (\<lambda>k. map_option (\<lambda>n. if node_type n \<noteq> ''Source'' then n \<lparr> level := - 1 \<rparr> else n) (ns k))"

text \<open>The body of the \<open>while\<close> loop: the level of the node taken from the queue \<dots>\<close>

definition update_level ::
  "(string \<rightharpoonup> TopologyNode) \<Rightarrow> string \<Rightarrow> int \<Rightarrow> (string \<rightharpoonup> TopologyNode)" where
  "update_level ns nid lv =
     (case ns nid of
        None \<Rightarrow> ns
      | Some n \<Rightarrow> if level n = - 1 \<or> lv < level n then ns(nid \<mapsto> n \<lparr> level := lv \<rparr>) else ns)"

text \<open>\<dots> and the loop over its downstream nodes.\<close>

fun enqueue_downstream ::
  "string list \<Rightarrow> int \<Rightarrow> (string \<times> int) list \<times> string set \<Rightarrow> (string \<times> int) list \<times> string set" where
  "enqueue_downstream [] lv (queue, visited) = (queue, visited)"
| "enqueue_downstream (downstream_id # rest) lv (queue, visited) =
     (if downstream_id \<notin> visited
      then enqueue_downstream rest lv (queue @ [(downstream_id, lv + 1)], insert downstream_id visited)
      else enqueue_downstream rest lv (queue, visited))"

text \<open>The set of all nodes that some adjacency list names.\<close>

definition adjacency_targets :: "adjacency_dict \<Rightarrow> string set" where
  "adjacency_targets d = (\<Union>(k, xs) \<in> set d. set xs)"

function bfs_levels ::
  "adjacency_dict \<Rightarrow> (string \<times> int) list \<Rightarrow> string set \<Rightarrow> (string \<rightharpoonup> TopologyNode)
     \<Rightarrow> (string \<rightharpoonup> TopologyNode)" where
  "bfs_levels adj [] visited ns = ns"
| "bfs_levels adj ((nid, lv) # queue) visited ns =
     (let ns' = update_level ns nid lv;
          (queue', visited') = enqueue_downstream (adjacency_get adj nid) lv (queue, visited)
      in bfs_levels adj queue' visited' ns')"
  by pat_completeness auto

text \<open>One search per registered source, in the order of \<open>self.sources\<close>.\<close>

definition calculate_network_levels :: "TopologyGraph \<Rightarrow> TopologyGraph" where
  "calculate_network_levels g =
     g \<lparr> graph_nodes :=
           fold (\<lambda>source_id ns. bfs_levels (adjacency g) [(source_id, 0)] {source_id} ns)
             (sources g) (reset_levels (graph_nodes g)) \<rparr>"

text \<open>
  Directed walks along the adjacency lists: \<open>walk adj s d v\<close> says that \<open>v\<close> is reached from
  \<open>s\<close> over \<open>d\<close> edges. The distance from a set of start nodes is the length of a shortest
  such walk.
\<close>

inductive walk :: "adjacency_dict \<Rightarrow> string \<Rightarrow> nat \<Rightarrow> string \<Rightarrow> bool" for adj s where
  walk_start: "walk adj s 0 s"
| walk_edge: "walk adj s d u \<Longrightarrow> v \<in> set (adjacency_get adj u) \<Longrightarrow> walk adj s (Suc d) v"

definition reached_from :: "adjacency_dict \<Rightarrow> string set \<Rightarrow> string \<Rightarrow> bool" where
  "reached_from adj S v \<longleftrightarrow> (\<exists>s \<in> S. \<exists>d. walk adj s d v)"

definition bfs_distance :: "adjacency_dict \<Rightarrow> string set \<Rightarrow> string \<Rightarrow> nat" where
  "bfs_distance adj S v = (LEAST d. \<exists>s \<in> S. walk adj s d v)"

text \<open>What one pass of the loop does to the node it takes from the queue.\<close>

definition relax_level :: "int \<Rightarrow> TopologyNode \<Rightarrow> TopologyNode" where
  "relax_level lv n = (if level n = - 1 \<or> lv < level n then n \<lparr> level := lv \<rparr> else n)"

text \<open>
  The state of one search from \<open>s\<close>, between two passes of the \<open>while\<close> loop: the queue holds
  visited nodes with their exact distances, in ascending order and at most one apart, and
  every visited node that has left the queue has all its downstream nodes visited.
\<close>

definition bfs_invariant ::
  "adjacency_dict \<Rightarrow> string \<Rightarrow> (string \<times> int) list \<Rightarrow> string set \<Rightarrow> bool" where
  "bfs_invariant adj s q vis \<longleftrightarrow>
     s \<in> vis \<and> fst ` set q \<subseteq> vis \<and>
     (\<forall>(v, l) \<in> set q. 0 \<le> l \<and> walk adj s (nat l) v \<and> (\<forall>d. walk adj s d v \<longrightarrow> nat l \<le> d)) \<and>
     sorted (map snd q) \<and> (\<forall>l \<in> snd ` set q. l \<le> snd (hd q) + 1) \<and>
     (\<forall>u \<in> vis. u \<notin> fst ` set q \<longrightarrow> set (adjacency_get adj u) \<subseteq> vis)"

text \<open>
  A graph built as \<open>build_topology_from_database\<close> and the module's example build it: every
  node is added, then every edge. The example is the module's own (a source feeding two motors
  through a transformer, a bus and two cables) and one more motor that nothing feeds.
\<close>

definition mk_node :: "string \<Rightarrow> string \<Rightarrow> string \<Rightarrow> real \<Rightarrow> TopologyNode" where
  "mk_node i t g v =
     \<lparr> node_id = i, node_type = t, tag = g, voltage_level = v, properties = [],
       upstream_nodes = [], downstream_nodes = [], level = 0, bus_name = None \<rparr>"

definition mk_edge :: "string \<Rightarrow> string \<Rightarrow> string \<Rightarrow> TopologyEdge" where
  "mk_edge i s t =
     \<lparr> edge_id = i, source_id = s, target_id = t, cable_id = None, edge_impedance = 0,
       edge_length = 0 \<rparr>"

definition graph_of :: "TopologyNode list \<Rightarrow> TopologyEdge list \<Rightarrow> TopologyGraph" where
  "graph_of ns es = fold (\<lambda>e g. add_edge g e) es (fold (\<lambda>n g. add_node g n) ns TopologyGraph_init)"

definition example_graph :: TopologyGraph where
  "example_graph = graph_of
     [mk_node ''1'' ''Source'' ''SRC-11-01'' 11,
      mk_node ''2'' ''Transformer'' ''T-11-SRC-MDP-01'' 11,
      mk_node ''3'' ''Bus'' ''BUS-0.4-MDP-01'' 0.4,
      mk_node ''4'' ''Cable'' ''C-0.4-MDP-M1-01'' 0.4,
      mk_node ''5'' ''Motor'' ''M-0.4-M1-01'' 0.4,
      mk_node ''6'' ''Cable'' ''C-0.4-MDP-M2-01'' 0.4,
      mk_node ''7'' ''Motor'' ''M-0.4-M2-01'' 0.4,
      mk_node ''8'' ''Motor'' ''M-0.4-SPARE'' 0.4]
     [mk_edge ''e1'' ''1'' ''2'', mk_edge ''e2'' ''2'' ''3'', mk_edge ''e3'' ''3'' ''4'',
      mk_edge ''e4'' ''4'' ''5'', mk_edge ''e5'' ''3'' ''6'', mk_edge ''e6'' ''6'' ''7'']"

text \<open>
  The nodes of type Source, and the state in which \<open>add_node\<close> leaves a graph whose nodes
  have distinct identities: the registered sources are the nodes of type Source, and these
  are at level 0.
\<close>

definition source_nodes :: "TopologyGraph \<Rightarrow> string set" where
  "source_nodes g = {k. \<exists>n. graph_nodes g k = Some n \<and> node_type n = ''Source''}"

definition sources_consistent :: "TopologyGraph \<Rightarrow> bool" where
  "sources_consistent g \<longleftrightarrow>
     set (sources g) = source_nodes g \<and>
     (\<forall>k n. graph_nodes g k = Some n \<and> node_type n = ''Source'' \<longrightarrow> level n = 0)"

text \<open>The search from one source.\<close>

definition bfs_pass ::
  "adjacency_dict \<Rightarrow> string \<Rightarrow> (string \<rightharpoonup> TopologyNode) \<Rightarrow> (string \<rightharpoonup> TopologyNode)" where
  "bfs_pass adj s ns = bfs_levels adj [(s, 0)] {s} ns"

section \<open>Properties\<close>

subsection \<open>Error plumbing\<close>

lemma bind_e_Inr [simp]: "bind_e (Inr x) f = f x"
  by (simp add: bind_e_def)

lemma bind_e_Inl [simp]: "bind_e (Inl e) f = Inl e"
  by (simp add: bind_e_def)

lemma bind_e_eq_Inr: "bind_e m f = Inr y \<longleftrightarrow> (\<exists>x. m = Inr x \<and> f x = Inr y)"
  by (cases m) simp_all



lemma py_cdiv_ok: "b \<noteq> 0 \<Longrightarrow> py_cdiv a b = Inr (a / b)"
  by (simp add: py_cdiv_def)

subsection \<open>Three-phase fault\<close>













subsection \<open>Breaker validation\<close>




subsection \<open>Per-unit round trip\<close>

lemma init_consistent: "bases_consistent (PerUnitSystem_init mva)"
  by (simp add: bases_consistent_def PerUnitSystem_init_def)

lemma add_voltage_level_consistent:
  assumes "bases_consistent s"
  shows "bases_consistent (snd (add_voltage_level s v))"
    and "base_mva (snd (add_voltage_level s v)) = base_mva s"
  using assms
  by (auto simp add: add_voltage_level_def bases_consistent_def Let_def split: option.splits)

lemma get_base_consistent:
  assumes "bases_consistent s"
  shows "fst (get_base s v) = \<lparr> voltage_kv = v, power_mva = base_mva s \<rparr>"
    and "bases_consistent (snd (get_base s v))"
    and "base_mva (snd (get_base s v)) = base_mva s"
  using assms
  by (auto simp add: get_base_def add_voltage_level_def bases_consistent_def Let_def
      split: option.splits)

lemma impedance_to_ohms_eval:
  assumes "bases_consistent s" "base_mva s \<noteq> 0"
  shows "fst (impedance_to_ohms s z v) = Inr (z * of_real (v\<^sup>2 * 1000 / base_mva s))"
    and "bases_consistent (snd (impedance_to_ohms s z v))"
    and "base_mva (snd (impedance_to_ohms s z v)) = base_mva s"
  using get_base_consistent [OF assms(1), of v] assms(2)
  by (simp_all add: impedance_to_ohms_def split_beta Let_def impedance_ohms_def py_div_def
      del: of_real_divide of_real_mult)

lemma impedance_to_pu_eval:
  assumes "bases_consistent s" "base_mva s \<noteq> 0" "v \<noteq> 0"
  shows "fst (impedance_to_pu s z v) = Inr (z / of_real (v\<^sup>2 * 1000 / base_mva s))"
    and "bases_consistent (snd (impedance_to_pu s z v))"
    and "base_mva (snd (impedance_to_pu s z v)) = base_mva s"
  using get_base_consistent [OF assms(1), of v] assms(2,3)
  by (simp_all add: impedance_to_pu_def split_beta Let_def impedance_ohms_def py_div_def py_cdiv_def
      del: of_real_divide of_real_mult)

text \<open>
  C4. Within one per-unit system (on a nonzero base power) and for a voltage level \<open>V > 0\<close>,
  converting any complex impedance \<open>z\<close> to ohms and back to per-unit at \<open>V\<close> returns \<open>z\<close>,
  hence within \<open>10\<^sup>-\<^sup>9\<close> relative error, and so does converting to per-unit and back to ohms.
\<close>

theorem per_unit_round_trip:
  assumes cons: "bases_consistent s" and b: "base_mva s \<noteq> 0" and v: "0 < v"
  shows "(\<exists>z_ohms s1. impedance_to_ohms s z v = (Inr z_ohms, s1) \<and>
            (\<exists>z' s2. impedance_to_pu s1 z_ohms v = (Inr z', s2) \<and>
               z' = z \<and> cmod (z' - z) \<le> (1 / 10 ^ 9) * cmod z)) \<and>
         (\<exists>z_pu s1. impedance_to_pu s z v = (Inr z_pu, s1) \<and>
            (\<exists>z' s2. impedance_to_ohms s1 z_pu v = (Inr z', s2) \<and>
               z' = z \<and> cmod (z' - z) \<le> (1 / 10 ^ 9) * cmod z))"
proof -
  define zb where "zb = v\<^sup>2 * 1000 / base_mva s"
  have zb: "zb \<noteq> 0" using b v by (simp add: zb_def)
  from v have v0: "v \<noteq> 0" by simp
  let ?s1 = "snd (impedance_to_ohms s z v)"
  have oh: "impedance_to_ohms s z v = (Inr (z * of_real zb), ?s1)"
    using impedance_to_ohms_eval(1) [OF cons b, of z v] unfolding zb_def
    by (metis prod.collapse)
  have c1: "bases_consistent ?s1" and b1: "base_mva ?s1 \<noteq> 0" and e1: "base_mva ?s1 = base_mva s"
    using impedance_to_ohms_eval(2,3) [OF cons b, of z v] b by simp_all
  have p: "impedance_to_pu ?s1 (z * of_real zb) v =
             (Inr (z * of_real zb / of_real zb), snd (impedance_to_pu ?s1 (z * of_real zb) v))"
    using impedance_to_pu_eval(1) [OF c1 b1 v0, of "z * of_real zb"] unfolding zb_def e1
    by (metis prod.collapse)
  have rt: "z * of_real zb / of_real zb = z" using zb by simp
  let ?t1 = "snd (impedance_to_pu s z v)"
  have p': "impedance_to_pu s z v = (Inr (z / of_real zb), ?t1)"
    using impedance_to_pu_eval(1) [OF cons b v0, of z] unfolding zb_def
    by (metis prod.collapse)
  have c2: "bases_consistent ?t1" and b2: "base_mva ?t1 \<noteq> 0" and e2: "base_mva ?t1 = base_mva s"
    using impedance_to_pu_eval(2,3) [OF cons b v0, of z] b by simp_all
  have oh2: "impedance_to_ohms ?t1 (z / of_real zb) v =
             (Inr (z / of_real zb * of_real zb), snd (impedance_to_ohms ?t1 (z / of_real zb) v))"
    using impedance_to_ohms_eval(1) [OF c2 b2, of "z / of_real zb" v] unfolding zb_def e2
    by (metis prod.collapse)
  have rt2: "z / of_real zb * of_real zb = z" using zb by simp
  from p have A: "\<exists>z' s2. impedance_to_pu ?s1 (z * of_real zb) v = (Inr z', s2) \<and>
               z' = z \<and> cmod (z' - z) \<le> (1 / 10 ^ 9) * cmod z"
    unfolding rt by (intro exI [of _ z] exI [of _ "snd (impedance_to_pu ?s1 (z * of_real zb) v)"]) simp
  from oh2 have B: "\<exists>z' s2. impedance_to_ohms ?t1 (z / of_real zb) v = (Inr z', s2) \<and>
               z' = z \<and> cmod (z' - z) \<le> (1 / 10 ^ 9) * cmod z"
    unfolding rt2 by (intro exI [of _ z] exI [of _ "snd (impedance_to_ohms ?t1 (z / of_real zb) v)"]) simp
  from oh A p' B show ?thesis by blast
qed

theorem per_unit_round_trip_witness:
  "bases_consistent (PerUnitSystem_init 100) \<and> base_mva (PerUnitSystem_init 100) \<noteq> 0 \<and> (0::real) < 11 \<and>
   ((\<exists>z_ohms s1. impedance_to_ohms (PerUnitSystem_init 100) (Complex 0.01 0.05) 11 = (Inr z_ohms, s1) \<and>
            (\<exists>z' s2. impedance_to_pu s1 z_ohms 11 = (Inr z', s2) \<and>
               z' = Complex 0.01 0.05 \<and> cmod (z' - Complex 0.01 0.05) \<le> (1 / 10 ^ 9) * cmod (Complex 0.01 0.05))) \<and>
         (\<exists>z_pu s1. impedance_to_pu (PerUnitSystem_init 100) (Complex 0.01 0.05) 11 = (Inr z_pu, s1) \<and>
            (\<exists>z' s2. impedance_to_ohms s1 z_pu 11 = (Inr z', s2) \<and>
               z' = Complex 0.01 0.05 \<and> cmod (z' - Complex 0.01 0.05) \<le> (1 / 10 ^ 9) * cmod (Complex 0.01 0.05))))"
proof -
  have h1: "bases_consistent (PerUnitSystem_init 100)" by (rule init_consistent)
  have h2: "base_mva (PerUnitSystem_init 100) \<noteq> 0" by (simp add: PerUnitSystem_init_def)
  have h3: "(0::real) < 11" by simp
  from per_unit_round_trip [OF h1 h2 h3, of "Complex 0.01 0.05"] h1 h2 h3 show ?thesis by blast
qed

subsection \<open>Admittance matrix\<close>






lemma node_index_None: "k \<notin> set nodes \<Longrightarrow> node_index_of nodes k = None"
  unfolding node_index_of_def
  by (auto simp add: map_of_eq_None_iff dest: set_zip_leftD)








subsection \<open>Load flow: loops, lengths and indices\<close>

lemma fold_e_invariant:
  assumes "fold_e f xs s = Inr s'" and "P s"
    and "\<And>x s s'. x \<in> set xs \<Longrightarrow> P s \<Longrightarrow> f x s = Inr s' \<Longrightarrow> P s'"
  shows "P s'"
  using assms
proof (induction xs arbitrary: s)
  case Nil then show ?case by simp
next
  case (Cons x xs)
  from Cons.prems(1) obtain s1 where s1: "f x s = Inr s1" and r: "fold_e f xs s1 = Inr s'"
    by (auto simp add: bind_e_eq_Inr)
  have "P s1" using Cons.prems(3) [of x s s1] Cons.prems(2) s1 by simp
  show ?case
  proof (rule Cons.IH [OF r \<open>P s1\<close>])
    fix y t t' assume "y \<in> set xs" "P t" "f y t = Inr t'"
    thus "P t'" using Cons.prems(3) [of y t t'] by simp
  qed
qed

lemma fold_e_step_returns:
  assumes "fold_e f xs s = Inr s'" and "P s"
    and "\<And>x s s'. x \<in> set xs \<Longrightarrow> P s \<Longrightarrow> f x s = Inr s' \<Longrightarrow> P s'"
    and "x \<in> set xs"
  shows "\<exists>s1 s2. P s1 \<and> f x s1 = Inr s2"
  using assms
proof (induction xs arbitrary: s)
  case Nil then show ?case by simp
next
  case (Cons y ys)
  from Cons.prems(1) obtain s1 where s1: "f y s = Inr s1" and r: "fold_e f ys s1 = Inr s'"
    by (auto simp add: bind_e_eq_Inr)
  show ?case
  proof (cases "x = y")
    case True with s1 Cons.prems(2) show ?thesis by blast
  next
    case False
    with Cons.prems(4) have x: "x \<in> set ys" by simp
    have "P s1" using Cons.prems(3) [of y s s1] Cons.prems(2) s1 by simp
    show ?thesis
    proof (rule Cons.IH [OF r \<open>P s1\<close> _ x])
      fix z t t' assume "z \<in> set ys" "P t" "f z t = Inr t'"
      thus "P t'" using Cons.prems(3) [of z t t'] by simp
    qed
  qed
qed

lemma map_e_length: "map_e f xs = Inr ys \<Longrightarrow> length ys = length xs"
  by (induction xs arbitrary: ys) (auto simp add: bind_e_eq_Inr)

lemma np_set_length: "np_set xs idx x = Inr ys \<Longrightarrow> length ys = length xs"
  by (auto simp add: np_set_def bind_e_eq_Inr)

lemma np_set_index: "np_set xs idx x = Inr ys \<Longrightarrow> \<exists>i. np_index (length xs) idx = Inr i"
  by (auto simp add: np_set_def bind_e_eq_Inr)

lemma np_get_index: "np_get xs idx = Inr y \<Longrightarrow> \<exists>i. np_index (length xs) idx = Inr i"
  by (auto simp add: np_get_def bind_e_eq_Inr)

lemma np_get_returns: "np_index (length xs) idx = Inr i \<Longrightarrow> np_get xs idx = Inr (xs ! i)"
  by (simp add: np_get_def)

lemma set_slack_lengths:
  assumes "set_slack lf b (v, th) = Inr (v', th')"
  shows "length v' = length v \<and> length th' = length th \<and>
         (\<exists>idx i. index_of lf b = Inr idx \<and> np_index (length v) idx = Inr i)"
  using assms
  by (auto simp add: set_slack_def bind_e_eq_Inr dest: np_set_length np_set_index)

lemma set_pv_lengths:
  assumes "set_pv lf b (v, th) = Inr (v', th')"
  shows "length v' = length v \<and> length th' = length th \<and>
         (\<exists>idx i. index_of lf b = Inr idx \<and> np_index (length v) idx = Inr i)"
  using assms
  by (auto simp add: set_pv_def bind_e_eq_Inr dest: np_set_length np_set_index)

lemma initial_state_lengths:
  assumes "initial_state lf = Inr (v0, th0)"
  shows "length v0 = n_buses lf" and "length th0 = n_buses lf"
    and "\<And>b. b \<in> set (bus_values lf) \<Longrightarrow> bus_type b \<noteq> PQ \<Longrightarrow> valid_index lf b"
proof -
  let ?P = "\<lambda>s. length (fst s) = n_buses lf \<and> length (snd s) = n_buses lf"
  from assms obtain s1 where
    f1: "fold_e (set_slack lf) (slack_buses lf)
           (replicate (n_buses lf) 1, replicate (n_buses lf) 0) = Inr s1"
    and f2: "fold_e (set_pv lf) (pv_buses lf) s1 = Inr (v0, th0)"
    by (auto simp add: initial_state_def Let_def bind_e_eq_Inr)
  have p0: "?P (replicate (n_buses lf) 1, replicate (n_buses lf) 0)" by simp
  have step1: "?P s'" if "?P s" "set_slack lf x s = Inr s'" for x s s'
    using that set_slack_lengths [of lf x "fst s" "snd s" "fst s'" "snd s'"] by simp
  have step2: "?P s'" if "?P s" "set_pv lf x s = Inr s'" for x s s'
    using that set_pv_lengths [of lf x "fst s" "snd s" "fst s'" "snd s'"] by simp
  have p1: "?P s1" using fold_e_invariant [OF f1, of ?P] p0 step1 by blast
  have p2: "?P (v0, th0)" using fold_e_invariant [OF f2, of ?P] p1 step2 by blast
  from p2 show "length v0 = n_buses lf" and "length th0 = n_buses lf" by simp_all
  fix b assume b: "b \<in> set (bus_values lf)" and t: "bus_type b \<noteq> PQ"
  show "valid_index lf b"
  proof (cases "bus_type b")
    case SLACK
    with b have "b \<in> set (slack_buses lf)" by (simp add: slack_buses_def)
    from fold_e_step_returns [OF f1, of ?P, OF p0 _ this] step1
    obtain sa sb where "?P sa" "set_slack lf b sa = Inr sb" by blast
    with set_slack_lengths [of lf b "fst sa" "snd sa" "fst sb" "snd sb"]
    show ?thesis by (auto simp add: valid_index_def)
  next
    case PV
    with b have "b \<in> set (pv_buses lf)" by (simp add: pv_buses_def)
    from fold_e_step_returns [OF f2, of ?P, OF p1 _ this] step2
    obtain sa sb where "?P sa" "set_pv lf b sa = Inr sb" by blast
    with set_pv_lengths [of lf b "fst sa" "snd sa" "fst sb" "snd sb"]
    show ?thesis by (auto simp add: valid_index_def)
  next
    case PQ with t show ?thesis by simp
  qed
qed

lemma calculate_power_lengths:
  assumes "calculate_power lf v th = Inr (p, q)"
  shows "length p = n_buses lf \<and> length q = n_buses lf"
  using assms
  by (auto simp add: calculate_power_def Let_def bind_e_eq_Inr dest: map_e_length)

lemma mismatch_step_index:
  assumes "mismatch_step lf p q b s = Inr s'" and "bus_type b \<noteq> SLACK"
  shows "\<exists>idx i. index_of lf b = Inr idx \<and> np_index (length p) idx = Inr i"
  using assms
  by (cases s) (auto simp add: mismatch_step_def bind_e_eq_Inr dest: np_get_index)

lemma power_mismatch_index:
  assumes "power_mismatch lf p q = Inr d" and "length p = n_buses lf"
    and "b \<in> set (bus_values lf)" and "bus_type b \<noteq> SLACK"
  shows "valid_index lf b"
proof -
  from assms(1) have f: "fold_e (mismatch_step lf p q) (bus_values lf)
       (replicate (n_buses lf) 0, replicate (n_buses lf) 0) = Inr d"
    by (simp add: power_mismatch_def)
  from fold_e_step_returns [OF f, of "\<lambda>s. True", OF _ _ assms(3)]
  obtain sa sb where "mismatch_step lf p q b sa = Inr sb" by blast
  from mismatch_step_index [OF this assms(4)] assms(2)
  show ?thesis by (auto simp add: valid_index_def)
qed

lemma store_bus_returns:
  assumes "valid_index lf b" and "length (st_v st) = n_buses lf"
    and "length (st_theta st) = n_buses lf" and "st_calc st = Some (p, q)"
    and "length p = n_buses lf" and "length q = n_buses lf"
  shows "\<exists>b'. store_bus lf st b = Inr b' \<and> same_specification (k, b) (k, b') \<and>
              bus_at_state lf (st_v st) (st_theta st) b'"
proof -
  from assms(1) obtain idx i where idx: "index_of lf b = Inr idx"
    and i: "np_index (n_buses lf) idx = Inr i"
    by (auto simp add: valid_index_def)
  let ?b' = "b \<lparr> v_magnitude := st_v st ! i, v_angle := st_theta st ! i,
                 p_calculated := p ! i, q_calculated := q ! i \<rparr>"
  have "store_bus lf st b = Inr ?b'"
    using idx i assms(2-6) by (simp add: store_bus_def np_get_def)
  moreover have "index_of lf ?b' = Inr idx" using idx by (simp add: index_of_def)
  hence "bus_at_state lf (st_v st) (st_theta st) ?b'"
    using i assms(2,3) by (simp add: bus_at_state_def np_get_def)
  moreover have "same_specification (k, b) (k, ?b')" by (simp add: same_specification_def)
  ultimately show ?thesis by blast
qed

lemma map_e_store:
  assumes "\<And>k b. (k, b) \<in> set xs \<Longrightarrow>
     \<exists>b'. store_bus lf st b = Inr b' \<and> same_specification (k, b) (k, b') \<and>
          bus_at_state lf v th b'"
  shows "\<exists>bs. map_e (\<lambda>(k, bus). bind_e (store_bus lf st bus) (\<lambda>bus'. Inr (k, bus'))) xs = Inr bs \<and>
              list_all2 same_specification xs bs \<and>
              list_all (bus_at_state lf v th) (map snd bs)"
  using assms
proof (induction xs)
  case Nil show ?case by simp
next
  case (Cons x xs)
  obtain k b where x: "x = (k, b)" by (cases x)
  from Cons.prems [of k b] x obtain b' where b': "store_bus lf st b = Inr b'"
    "same_specification (k, b) (k, b')" "bus_at_state lf v th b'" by auto
  from Cons.IH Cons.prems obtain bs where
    bs: "map_e (\<lambda>(k, bus). bind_e (store_bus lf st bus) (\<lambda>bus'. Inr (k, bus'))) xs = Inr bs"
        "list_all2 same_specification xs bs" "list_all (bus_at_state lf v th) (map snd bs)"
    by auto
  show ?case using x b' bs by simp
qed

lemma nr_loop_converges_first:
  assumes "calculate_power lf (st_v st) (st_theta st) = Inr (p, q)"
    and "power_mismatch lf p q = Inr (dp, dq)"
    and "max_abs_mismatch dp dq = Inr m" and "m < tolerance lf"
  shows "nr_loop ls lf (it # rest) st =
           Inr (st \<lparr> st_iteration := it, st_max_mismatch := Finite m,
                     st_calc := Some (p, q), st_converged := True \<rparr>)"
  using assms by (simp add: Let_def)



subsection \<open>Load flow: the lossless line\<close>

lemma upt_0_2: "[0..<2] = [0, 1]" by (simp add: upt_rec)

lemma lossless_line_initial_state: "initial_state lossless_line = Inr ([1, 1], [0, 0])"
  by (simp add: initial_state_def lossless_line_def Let_def n_buses_def slack_buses_def
      pv_buses_def bus_values_def set_slack_def set_pv_def index_of_def np_set_def np_index_def
      numeral_2_eq_2)

lemma lossless_line_power: "calculate_power lossless_line [1, 1] [0, 0] = Inr ([0, 0], [0, 0])"
  by (simp add: calculate_power_def lossless_line_def Let_def n_buses_def upt_0_2 power_term_def y_at_def)

lemma lossless_line_mismatch: "power_mismatch lossless_line [0, 0] [0, 0] = Inr ([0, 0], [0, 0])"
  by (simp add: power_mismatch_def lossless_line_def n_buses_def bus_values_def mismatch_step_def
      index_of_def np_get_def np_set_def np_index_def numeral_2_eq_2)

lemma lossless_line_first_mismatch: "first_mismatch lossless_line = Inr 0"
  by (simp add: first_mismatch_def lossless_line_initial_state lossless_line_power lossless_line_mismatch max_abs_mismatch_def np_max_abs_def)

lemma upto_1_20: "[1..20::int] = 1 # [2..20]"
  by (simp add: upto_rec1)

lemma lossless_line_store:
  "store_results lossless_line
     \<lparr> st_v = [1, 1], st_theta = [0, 0], st_converged = True, st_iteration = 1,
       st_max_mismatch = Finite 0, st_calc = Some ([0, 0], [0, 0]) \<rparr> =
   Inr (buses lossless_line)"
  by (simp add: store_results_def store_bus_def lossless_line_def index_of_def np_get_def
      np_index_def)

lemma lossless_line_max_mismatch: "max_abs_mismatch [0, 0] [0, 0] = Inr 0"
  by (simp add: max_abs_mismatch_def np_max_abs_def)

lemma lossless_line_tolerance: "0 < tolerance lossless_line"
  by (simp add: lossless_line_def)

lemma lossless_line_max_iterations: "max_iterations lossless_line = 20"
  by (simp add: lossless_line_def)

lemma lossless_line_compiled:
  "compile_results (buses lossless_line) True 1 (Finite 0) =
     \<lparr> converged = True, iterations = 1, max_mismatch = Finite 0,
       result_buses = buses lossless_line, result_branches = [],
       total_generation_p = 0, total_generation_q = 0, total_load_p = 0, total_load_q = 0,
       total_losses_p = 0, total_losses_q = 0 \<rparr>"
  by (simp add: compile_results_def lossless_line_def)

lemma lossless_line_solve:
  "solve singular_solver lossless_line =
     Inr \<lparr> converged = True, iterations = 1, max_mismatch = Finite 0,
           result_buses = buses lossless_line, result_branches = [],
           total_generation_p = 0, total_generation_q = 0, total_load_p = 0, total_load_q = 0,
           total_losses_p = 0, total_losses_q = 0 \<rparr>"
proof -
  have "solve singular_solver lossless_line =
          Inr (compile_results (buses lossless_line) True 1 (Finite 0))"
    unfolding solve_def lossless_line_initial_state lossless_line_max_iterations upto_1_20
    by (simp add: nr_loop_converges_first [OF _ lossless_line_mismatch lossless_line_max_mismatch lossless_line_tolerance] lossless_line_power lossless_line_store
        del: nr_loop.simps)
  with lossless_line_compiled show ?thesis by simp
qed

text \<open>
  C3, as stated, fails: the loop counts its passes from 1, and a run that converges at its
  first mismatch check reports \<open>iterations = 1\<close>. The lossless line has first mismatch 0,
  below the tolerance, and its result has \<open>iterations = 1\<close>.
\<close>

theorem flat_mismatch_iterations_counterexample:
  "first_mismatch lossless_line = Inr 0 \<and> 0 < tolerance lossless_line \<and>
   solve singular_solver lossless_line =
     Inr \<lparr> converged = True, iterations = 1, max_mismatch = Finite 0,
           result_buses = buses lossless_line, result_branches = [],
           total_generation_p = 0, total_generation_q = 0, total_load_p = 0, total_load_q = 0,
           total_losses_p = 0, total_losses_q = 0 \<rparr>"
  by (simp add: lossless_line_first_mismatch lossless_line_tolerance lossless_line_solve)

text \<open>
  C3, amended. For a solver that runs at least one iteration and whose first computed power
  mismatch is below the tolerance, \<open>solve\<close> returns a result with \<open>converged = true\<close> and
  \<open>iterations = 1\<close>, whose buses keep their keys and specified values and carry the voltage
  magnitudes and angles of the initial state.
\<close>

theorem flat_mismatch_converges_in_first_iteration:
  assumes it: "1 \<le> max_iterations lf" and fm: "first_mismatch lf = Inr m"
    and tol: "m < tolerance lf"
  shows "\<exists>r v0 theta0.
           initial_state lf = Inr (v0, theta0) \<and>
           solve linalg_solve lf = Inr r \<and>
           converged r \<and> iterations r = 1 \<and> max_mismatch r = Finite m \<and>
           list_all2 same_specification (buses lf) (result_buses r) \<and>
           list_all (bus_at_state lf v0 theta0) (map snd (result_buses r))"
proof -
  from fm obtain v0 th0 p q dp dq where
    i0: "initial_state lf = Inr (v0, th0)" and
    cp: "calculate_power lf v0 th0 = Inr (p, q)" and
    pm: "power_mismatch lf p q = Inr (dp, dq)" and
    mx: "max_abs_mismatch dp dq = Inr m"
    by (auto simp add: first_mismatch_def bind_e_eq_Inr)
  define st0 where "st0 = \<lparr> st_v = v0, st_theta = th0, st_converged = False, st_iteration = 0,
                 st_max_mismatch = Infinity, st_calc = None \<rparr>"
  define st where "st = st0 \<lparr> st_iteration := 1, st_max_mismatch := Finite m,
                     st_calc := Some (p, q), st_converged := True \<rparr>"
  from it have up: "[1..max_iterations lf] = 1 # [2..max_iterations lf]"
    by (simp add: upto_rec1)
  have loop: "nr_loop linalg_solve lf [1..max_iterations lf] st0 = Inr st"
    unfolding up st_def
    by (rule nr_loop_converges_first [OF _ pm mx tol]) (simp add: st0_def cp)
  have lens: "length p = n_buses lf" "length q = n_buses lf"
    using calculate_power_lengths [OF cp] by simp_all
  have valid: "valid_index lf b" if "b \<in> set (bus_values lf)" for b
  proof (cases "bus_type b = PQ")
    case True
    hence "bus_type b \<noteq> SLACK" by simp
    from power_mismatch_index [OF pm lens(1) that this] show ?thesis .
  next
    case False
    from initial_state_lengths(3) [OF i0 that False] show ?thesis .
  qed
  have stv: "st_v st = v0" "st_theta st = th0" "st_calc st = Some (p, q)"
    "st_converged st" "st_iteration st = 1" "st_max_mismatch st = Finite m"
    by (simp_all add: st_def st0_def)
  have "\<exists>b'. store_bus lf st b = Inr b' \<and> same_specification (k, b) (k, b') \<and>
              bus_at_state lf v0 th0 b'" if "(k, b) \<in> set (buses lf)" for k b
  proof -
    from that have "b \<in> set (bus_values lf)" by (force simp add: bus_values_def)
    from store_bus_returns [OF valid [OF this], of st p q k]
      initial_state_lengths(1,2) [OF i0] lens stv
    show ?thesis by simp
  qed
  from map_e_store [of "buses lf" lf st v0 th0, OF this]
  obtain bs where bs: "store_results lf st = Inr bs"
    "list_all2 same_specification (buses lf) bs" "list_all (bus_at_state lf v0 th0) (map snd bs)"
    unfolding store_results_def by blast
  have "solve linalg_solve lf = Inr (compile_results bs True 1 (Finite m))"
    using i0 loop bs(1) stv unfolding solve_def st0_def by simp
  moreover have "converged (compile_results bs True 1 (Finite m))"
    "iterations (compile_results bs True 1 (Finite m)) = 1"
    "max_mismatch (compile_results bs True 1 (Finite m)) = Finite m"
    "result_buses (compile_results bs True 1 (Finite m)) = bs"
    by (simp_all add: compile_results_def Let_def)
  ultimately show ?thesis using i0 bs(2,3) by auto
qed

theorem flat_mismatch_converges_in_first_iteration_witness:
  "1 \<le> max_iterations lossless_line \<and> first_mismatch lossless_line = Inr 0 \<and>
   0 < tolerance lossless_line \<and>
   (\<exists>r v0 theta0.
           initial_state lossless_line = Inr (v0, theta0) \<and>
           solve singular_solver lossless_line = Inr r \<and>
           converged r \<and> iterations r = 1 \<and> max_mismatch r = Finite 0 \<and>
           list_all2 same_specification (buses lossless_line) (result_buses r) \<and>
           list_all (bus_at_state lossless_line v0 theta0) (map snd (result_buses r)))"
proof -
  have h: "1 \<le> max_iterations lossless_line" by (simp add: lossless_line_max_iterations)
  from flat_mismatch_converges_in_first_iteration [OF h lossless_line_first_mismatch lossless_line_tolerance, of singular_solver] h lossless_line_first_mismatch lossless_line_tolerance show ?thesis by blast
qed

subsection \<open>Load flow: the three-bus example\<close>

lemma cmod_cos_Arg: "cmod z * cos (Arg z) = Re z"
  by (cases "z = 0") (simp_all add: cos_Arg Arg_zero)

lemma cmod_sin_Arg: "cmod z * sin (Arg z) = Im z"
  by (cases "z = 0") (simp_all add: sin_Arg Arg_zero)

lemma cmod_cos_diff_Arg: "cmod z * cos (a - Arg z) = Re z * cos a + Im z * sin a"
proof -
  have "cmod z * cos (a - Arg z) = cos a * (cmod z * cos (Arg z)) + sin a * (cmod z * sin (Arg z))"
    by (simp add: cos_diff algebra_simps)
  thus ?thesis by (simp add: cmod_cos_Arg cmod_sin_Arg mult.commute)
qed

lemma cmod_sin_diff_Arg: "cmod z * sin (a - Arg z) = Re z * sin a - Im z * cos a"
proof -
  have "cmod z * sin (a - Arg z) = sin a * (cmod z * cos (Arg z)) - cos a * (cmod z * sin (Arg z))"
    by (simp add: sin_diff algebra_simps)
  thus ?thesis by (simp add: cmod_cos_Arg cmod_sin_Arg mult.commute)
qed

lemma power_term_rectangular:
  assumes "y_at (y_bus lf) i j = Inr y"
    and "i < length theta" and "j < length theta" and "i < length v" and "j < length v"
  shows "power_term lf v theta i j (p, q) =
     Inr (p + v ! i * v ! j * (Re y * cos (theta ! i - theta ! j) + Im y * sin (theta ! i - theta ! j)),
          q + v ! i * v ! j * (Re y * sin (theta ! i - theta ! j) - Im y * cos (theta ! i - theta ! j)))"
proof -
  have c: "v ! i * v ! j * cmod y * cos (theta ! i - theta ! j - Arg y) =
        v ! i * v ! j * (Re y * cos (theta ! i - theta ! j) + Im y * sin (theta ! i - theta ! j))"
    using cmod_cos_diff_Arg [of y "theta ! i - theta ! j"] by (simp add: mult.assoc)
  have s: "v ! i * v ! j * cmod y * sin (theta ! i - theta ! j - Arg y) =
        v ! i * v ! j * (Re y * sin (theta ! i - theta ! j) - Im y * cos (theta ! i - theta ! j))"
    using cmod_sin_diff_Arg [of y "theta ! i - theta ! j"] by (simp add: mult.assoc)
  show ?thesis unfolding power_term_def using assms by (simp add: Let_def c s)
qed

lemma upt_0_3: "[0..<3] = [0, 1, 2]" by (simp add: upt_rec)

lemma three_bus_y_at:
  "y_at (y_bus (three_bus_example vs)) 0 0 = Inr (Complex 10 (- 30))"
  "y_at (y_bus (three_bus_example vs)) 0 (Suc 0) = Inr (Complex (- 5) 15)"
  "y_at (y_bus (three_bus_example vs)) 0 2 = Inr (Complex (- 5) 15)"
  "y_at (y_bus (three_bus_example vs)) (Suc 0) 0 = Inr (Complex (- 5) 15)"
  "y_at (y_bus (three_bus_example vs)) (Suc 0) (Suc 0) = Inr (Complex 10 (- 30))"
  "y_at (y_bus (three_bus_example vs)) (Suc 0) 2 = Inr (Complex (- 5) 15)"
  "y_at (y_bus (three_bus_example vs)) 2 0 = Inr (Complex (- 5) 15)"
  "y_at (y_bus (three_bus_example vs)) 2 (Suc 0) = Inr (Complex (- 5) 15)"
  "y_at (y_bus (three_bus_example vs)) 2 2 = Inr (Complex 10 (- 30))"
  by (simp_all add: y_at_def three_bus_example_def)

lemmas three_bus_terms = three_bus_y_at [THEN power_term_rectangular]

lemma three_bus_n: "n_buses (three_bus_example vs) = 3" "n_pq (three_bus_example vs) = 2"
  by (simp_all add: n_buses_def n_pq_def pq_buses_def bus_values_def three_bus_example_def)

lemma three_bus_power:
  "calculate_power (three_bus_example vs) [a, 1, 1] [0, t, 0] =
     Inr ([a * (10 * a - 5 - 5 * cos t - 15 * sin t),
           a * (15 * sin t - 5 * cos t) + (10 - 5 * cos t + 15 * sin t),
           10 - 5 * a - 5 * cos t - 15 * sin t],
          [a * (30 * a - 15 + 5 * sin t - 15 * cos t),
           30 - a * (5 * sin t + 15 * cos t) - (5 * sin t + 15 * cos t),
           30 - 15 * a + 5 * sin t - 15 * cos t])"
  unfolding calculate_power_def Let_def three_bus_n upt_0_3
  by (simp add: three_bus_terms algebra_simps)

lemma example_p2:
  "calculated_p example_solver [1, 1, 1] [0, t, 0] 1 = 10 - 10 * cos t + 30 * sin t"
  by (simp add: calculated_p_def example_solver_def three_bus_power)

lemma example_dp2:
  "((\<lambda>t. calculated_p example_solver [1, 1, 1] [0, t, 0] 1) has_real_derivative 30) (at 0)"
proof -
  have "((\<lambda>t. 10 - 10 * cos t + 30 * sin t) has_real_derivative 30) (at 0)"
    by (auto intro!: derivative_eq_intros)
  thus ?thesis unfolding example_p2 .
qed

lemma three_bus_init: "initial_state (three_bus_example vs) = Inr ([vs, 1, 1], [0, 0, 0])"
  by (simp add: initial_state_def three_bus_example_def Let_def n_buses_def slack_buses_def
      pv_buses_def bus_values_def set_slack_def set_pv_def index_of_def np_set_def np_index_def
      numeral_3_eq_3)

lemma three_bus_mismatch:
  "power_mismatch (three_bus_example vs) [p1, p2, p3] [q1, q2, q3] =
     Inr ([0, - 0.5 - p2, - 0.3 - p3], [0, - 0.2 - q2, - 0.1 - q3])"
  by (simp add: power_mismatch_def three_bus_example_def n_buses_def bus_values_def
      mismatch_step_def index_of_def np_get_def np_set_def np_index_def numeral_3_eq_3)

lemma example_first: "first_mismatch example_solver = Inr 0.5"
  using three_bus_power [where vs = 1 and a = 1 and t = 0]
  by (simp add: first_mismatch_def example_solver_def three_bus_init three_bus_mismatch
      max_abs_mismatch_def np_max_abs_def)

lemma three_bus_jacobian:
  "build_jacobian (three_bus_example vs \<lparr> y_bus := Y \<rparr>) v theta =
     Inr [[10, - 1, 0, 0], [- 1, 10, - 1, 0], [0, - 1, 10, - 1], [0, 0, - 1, 10]]"
proof -
  let ?lf = "three_bus_example vs \<lparr> y_bus := Y \<rparr>"
  have n: "n_buses ?lf = 3" "n_pq ?lf = 2"
    by (simp_all add: n_buses_def n_pq_def pq_buses_def bus_values_def three_bus_example_def)
  have sz: "nat (int (n_buses ?lf) - 1 + int (n_pq ?lf)) = 4"
    and nneg: "\<not> int (n_buses ?lf) - 1 + int (n_pq ?lf) < 0"
    by (simp_all add: n)
  have upt4: "[0..<4] = [0, 1, 2, 3]" by (simp add: upt_rec)
  have rep: "replicate 4 (replicate 4 (0::real)) =
      [[0, 0, 0, 0], [0, 0, 0, 0], [0, 0, 0, 0], [0, 0, 0, 0]]"
    by (simp add: numeral_Bit0)
  show ?thesis
    unfolding build_jacobian_def Let_def sz upt4 rep using nneg
    by (simp add: jacobian_step_def set_at_def)
qed

text \<open>
  C1 does not hold of the code. On the three-bus system of the module's own example the first
  mismatch is 0.5, not below the tolerance, so the first iteration builds the Jacobian at the
  flat start. The matrix \<open>_build_jacobian\<close> returns has 10 on the diagonal and -1 beside it,
  whatever the state and the Y-bus; the partial derivative of the calculated real power of
  bus 2 with respect to its own angle, the first entry of the Jacobian, is 30 at that state.
\<close>

theorem jacobian_is_constant_placeholder:
  "first_mismatch example_solver = Inr 0.5 \<and> \<not> 0.5 < tolerance example_solver \<and>
   build_jacobian (example_solver \<lparr> y_bus := Y \<rparr>) v theta =
     Inr [[10, - 1, 0, 0], [- 1, 10, - 1, 0], [0, - 1, 10, - 1], [0, 0, - 1, 10]] \<and>
   ((\<lambda>t. calculated_p example_solver [1, 1, 1] [0, t, 0] 1) has_real_derivative 30) (at 0)"
  using example_first three_bus_jacobian [where vs = 1 and Y = Y and v = v and theta = theta] example_dp2
  by (simp add: example_solver_def three_bus_example_def)







subsection \<open>Load flow: compiled totals\<close>




subsection \<open>Network levels\<close>

text \<open>
  The search ends: a pass takes one entry from the queue, and every entry it adds is a node
  named by an adjacency list that was not visited before.
\<close>

lemma finite_adjacency_targets: "finite (adjacency_targets d)"
  by (auto simp add: adjacency_targets_def)

lemma adjacency_get_targets: "set (adjacency_get d k) \<subseteq> adjacency_targets d"
proof
  fix x assume "x \<in> set (adjacency_get d k)"
  then obtain xs where "map_of d k = Some xs" and "x \<in> set xs"
    by (cases "map_of d k") (auto simp add: adjacency_get_def)
  from map_of_SomeD [OF this(1)] this(2) show "x \<in> adjacency_targets d"
    by (auto simp add: adjacency_targets_def)
qed

lemma enqueue_downstream_new:
  "\<exists>new. enqueue_downstream ds lv (q, vis) = (q @ map (\<lambda>d. (d, lv + 1)) new, vis \<union> set new) \<and>
         distinct new \<and> set new = set ds - vis"
proof (induction ds arbitrary: q vis)
  case Nil show ?case by simp
next
  case (Cons d ds)
  show ?case
  proof (cases "d \<in> vis")
    case True
    from Cons.IH [of q vis] obtain new where
      "enqueue_downstream ds lv (q, vis) = (q @ map (\<lambda>d. (d, lv + 1)) new, vis \<union> set new)"
      "distinct new" "set new = set ds - vis" by blast
    with True show ?thesis by auto
  next
    case False
    from Cons.IH [of "q @ [(d, lv + 1)]" "insert d vis"] obtain new where n:
      "enqueue_downstream ds lv (q @ [(d, lv + 1)], insert d vis) =
         ((q @ [(d, lv + 1)]) @ map (\<lambda>d. (d, lv + 1)) new, insert d vis \<union> set new)"
      "distinct new" "set new = set ds - insert d vis" by blast
    show ?thesis
    proof (intro exI [of _ "d # new"] conjI)
      show "enqueue_downstream (d # ds) lv (q, vis) =
              (q @ map (\<lambda>d. (d, lv + 1)) (d # new), vis \<union> set (d # new))"
        using False n(1) by simp
      show "distinct (d # new)" using n(2,3) by auto
      show "set (d # new) = set (d # ds) - vis" using False n(3) by auto
    qed
  qed
qed

lemma enqueue_downstream_measure:
  assumes "enqueue_downstream ds lv (q, vis) = (q', vis')" and "set ds \<subseteq> T" and "finite T"
  shows "card (T - vis') + length q' = card (T - vis) + length q"
proof -
  from enqueue_downstream_new [of ds lv q vis] assms(1) obtain new where
    q': "q' = q @ map (\<lambda>d. (d, lv + 1)) new" and vis': "vis' = vis \<union> set new"
    and d: "distinct new" and s: "set new = set ds - vis" by auto
  have sub: "set new \<subseteq> T - vis" using s assms(2) by auto
  have "T - vis' = (T - vis) - set new" unfolding vis' by auto
  hence "card (T - vis') = card (T - vis) - card (set new)"
    using sub assms(3) by (simp add: card_Diff_subset)
  moreover have "card (set new) \<le> card (T - vis)"
    using sub assms(3) by (simp add: card_mono)
  moreover have "card (set new) = length new" using d by (simp add: distinct_card)
  ultimately show ?thesis unfolding q' by simp
qed

lemma bfs_levels_decreases:
  assumes "(q', vis') = enqueue_downstream (adjacency_get adj nid) lv (q, vis)"
  shows "card (adjacency_targets adj - vis') + length q'
           < Suc (card (adjacency_targets adj - vis) + length q)"
proof -
  from assms have "enqueue_downstream (adjacency_get adj nid) lv (q, vis) = (q', vis')" by simp
  from enqueue_downstream_measure [OF this adjacency_get_targets finite_adjacency_targets]
  show ?thesis by simp
qed

termination bfs_levels
  apply (relation "measure (\<lambda>(adj, q, vis, ns). card (adjacency_targets adj - vis) + length q)")
   apply simp
  apply (simp add: bfs_levels_decreases)
  done

text \<open>
  One search from \<open>s\<close> relaxes the level of exactly the nodes that \<open>s\<close> reaches, each with
  its distance from \<open>s\<close>.
\<close>

lemma update_level_relax:
  "update_level ns k lv = (case ns k of None \<Rightarrow> ns | Some n \<Rightarrow> ns(k \<mapsto> relax_level lv n))"
  by (auto simp add: update_level_def relax_level_def split: option.splits)

lemma update_level_apply:
  "update_level ns k lv k' = (if k' = k then map_option (relax_level lv) (ns k) else ns k')"
  by (auto simp add: update_level_relax split: option.splits)

lemma relax_level_idem: "relax_level lv (relax_level lv n) = relax_level lv n"
  by (simp add: relax_level_def)

lemma invariant_near:
  assumes inv: "bfs_invariant adj s ((v, l) # rest) vis"
  shows "walk adj s d w \<Longrightarrow> int d \<le> l \<Longrightarrow> w \<in> vis"
proof (induction rule: walk.induct)
  case walk_start
  from inv show ?case by (simp add: bfs_invariant_def)
next
  case (walk_edge d u w)
  from walk_edge.prems have dl: "int d < l" by simp
  with walk_edge.IH have u: "u \<in> vis" by simp
  have "u \<notin> fst ` set ((v, l) # rest)"
  proof
    assume "u \<in> fst ` set ((v, l) # rest)"
    then obtain l' where m: "(u, l') \<in> set ((v, l) # rest)" by force
    from inv m have "nat l' \<le> d" "0 \<le> l'"
      using walk_edge.hyps(1) unfolding bfs_invariant_def by blast+
    moreover from inv m have "l \<le> l'" by (auto simp add: bfs_invariant_def)
    ultimately show False using dl by simp
  qed
  with inv u have "set (adjacency_get adj u) \<subseteq> vis" unfolding bfs_invariant_def by blast
  with walk_edge.hyps(2) show ?case by blast
qed

lemma invariant_done:
  assumes inv: "bfs_invariant adj s [] vis"
  shows "walk adj s d w \<Longrightarrow> w \<in> vis"
proof (induction rule: walk.induct)
  case walk_start
  from inv show ?case by (simp add: bfs_invariant_def)
next
  case (walk_edge d u w)
  with inv have "set (adjacency_get adj u) \<subseteq> vis" by (simp add: bfs_invariant_def)
  with walk_edge.hyps(2) show ?case by blast
qed

lemma invariant_step:
  assumes inv: "bfs_invariant adj s ((v, l) # rest) vis"
    and enq: "enqueue_downstream (adjacency_get adj v) l (rest, vis) = (q', vis')"
  shows "bfs_invariant adj s q' vis'"
proof -
  from enqueue_downstream_new [of "adjacency_get adj v" l rest vis] enq obtain new where
    q': "q' = rest @ map (\<lambda>d. (d, l + 1)) new" and vis': "vis' = vis \<union> set new"
    and new: "set new = set (adjacency_get adj v) - vis" by auto
  from inv have s: "s \<in> vis" and sub: "fst ` set ((v, l) # rest) \<subseteq> vis"
    and exact: "\<forall>(v, l) \<in> set ((v, l) # rest).
                  0 \<le> l \<and> walk adj s (nat l) v \<and> (\<forall>d. walk adj s d v \<longrightarrow> nat l \<le> d)"
    and srt: "sorted (map snd ((v, l) # rest))"
    and bnd: "\<forall>l' \<in> snd ` set ((v, l) # rest). l' \<le> l + 1"
    and closed: "\<forall>u \<in> vis. u \<notin> fst ` set ((v, l) # rest) \<longrightarrow> set (adjacency_get adj u) \<subseteq> vis"
    by (simp_all add: bfs_invariant_def)
  from exact have vl: "0 \<le> l" "walk adj s (nat l) v" by auto
  have low: "\<forall>l' \<in> snd ` set rest. l \<le> l'" using srt by auto
  have up: "\<forall>l' \<in> snd ` set rest. l' \<le> l + 1" using bnd by auto
  have 1: "s \<in> vis'" using s vis' by simp
  have 2: "fst ` set q' \<subseteq> vis'" using sub unfolding q' vis' by auto
  have 3: "\<forall>(w, l') \<in> set q'.
             0 \<le> l' \<and> walk adj s (nat l') w \<and> (\<forall>d. walk adj s d w \<longrightarrow> nat l' \<le> d)"
  proof (clarify)
    fix w l' assume "(w, l') \<in> set q'"
    then consider "(w, l') \<in> set rest" | "w \<in> set new" "l' = l + 1" unfolding q' by auto
    then show "0 \<le> l' \<and> walk adj s (nat l') w \<and> (\<forall>d. walk adj s d w \<longrightarrow> nat l' \<le> d)"
    proof cases
      case 1 with exact show ?thesis by auto
    next
      case 2
      from 2(1) new have w: "w \<in> set (adjacency_get adj v)" "w \<notin> vis" by auto
      have "walk adj s (Suc (nat l)) w" using vl(2) w(1) by (rule walk_edge)
      moreover have "Suc (nat l) = nat (l + 1)" using vl(1) by simp
      ultimately have a: "walk adj s (nat l') w" using 2(2) by simp
      have "nat l' \<le> d" if "walk adj s d w" for d
      proof (rule ccontr)
        assume "\<not> nat l' \<le> d"
        hence "int d \<le> l" using 2(2) vl(1) by simp
        from invariant_near [OF inv that this] w(2) show False by simp
      qed
      with a 2(2) vl(1) show ?thesis by simp
    qed
  qed
  have const: "sorted (map (\<lambda>x. l + 1) new)" by (induction new) simp_all
  have 4: "sorted (map snd q')"
    using srt up const unfolding q' by (auto simp add: sorted_append comp_def)
  have 5: "\<forall>l' \<in> snd ` set q'. l' \<le> snd (hd q') + 1"
  proof (cases rest)
    case Nil
    thus ?thesis unfolding q' by (cases new) auto
  next
    case (Cons e rest')
    hence h: "hd q' = e" unfolding q' by simp
    from Cons low have "l \<le> snd e" by simp
    thus ?thesis using up unfolding h unfolding q' by auto
  qed
  have 6: "\<forall>u \<in> vis'. u \<notin> fst ` set q' \<longrightarrow> set (adjacency_get adj u) \<subseteq> vis'"
  proof (intro ballI impI)
    fix u assume u: "u \<in> vis'" and nq: "u \<notin> fst ` set q'"
    from nq have nr: "u \<notin> fst ` set rest" and nn: "u \<notin> set new"
      unfolding q' by (auto simp add: image_Un image_image)
    from u nn have uv: "u \<in> vis" unfolding vis' by simp
    show "set (adjacency_get adj u) \<subseteq> vis'"
    proof (cases "u = v")
      case True thus ?thesis using new unfolding vis' by auto
    next
      case False
      with nr have "u \<notin> fst ` set ((v, l) # rest)" by simp
      with closed uv have "set (adjacency_get adj u) \<subseteq> vis" by blast
      thus ?thesis unfolding vis' by auto
    qed
  qed
  from 1 2 3 4 5 6 show ?thesis unfolding bfs_invariant_def by blast
qed

lemma exact_distance:
  assumes "walk adj s (nat l) v" and "\<forall>d. walk adj s d v \<longrightarrow> nat l \<le> d" and "0 \<le> l"
  shows "int (bfs_distance adj {s} v) = l"
proof -
  have "(LEAST d. walk adj s d v) = nat l"
    using assms(1,2) by (intro Least_equality) auto
  thus ?thesis using assms(3) by (simp add: bfs_distance_def)
qed

lemma bfs_levels_result:
  "bfs_invariant adj s q vis \<Longrightarrow>
   bfs_levels adj q vis ns k =
     (if k \<in> fst ` set q \<or> ((\<exists>d. walk adj s d k) \<and> k \<notin> vis)
      then map_option (relax_level (int (bfs_distance adj {s} k))) (ns k)
      else ns k)"
proof (induction adj q vis ns rule: bfs_levels.induct)
  case (1 adj visited ns)
  from invariant_done [OF "1.prems"] show ?case by auto
next
  case (2 adj nid lv queue visited ns)
  obtain q' vis' where enq:
    "enqueue_downstream (adjacency_get adj nid) lv (queue, visited) = (q', vis')"
    by (cases "enqueue_downstream (adjacency_get adj nid) lv (queue, visited)")
  from invariant_step [OF "2.prems" enq] have inv': "bfs_invariant adj s q' vis'" .
  note IH = "2.IH" [OF refl refl enq [symmetric] inv']
  have unfold: "bfs_levels adj ((nid, lv) # queue) visited ns k =
                  bfs_levels adj q' vis' (update_level ns nid lv) k"
    using enq by simp
  from enqueue_downstream_new [of "adjacency_get adj nid" lv queue visited] enq obtain new where
    q': "q' = queue @ map (\<lambda>d. (d, lv + 1)) new" and vis': "vis' = visited \<union> set new"
    and new: "set new = set (adjacency_get adj nid) - visited" by auto
  from "2.prems" have ex: "0 \<le> lv" "walk adj s (nat lv) nid"
    "\<forall>d. walk adj s d nid \<longrightarrow> nat lv \<le> d" and nv: "nid \<in> visited"
    by (auto simp add: bfs_invariant_def)
  have dist: "int (bfs_distance adj {s} nid) = lv" using ex by (intro exact_distance) auto
  have reach_new: "\<exists>d. walk adj s d w" if "w \<in> set new" for w
    using that new walk_edge [OF ex(2), of w] by blast
  let ?pend = "\<lambda>q vis k. k \<in> fst ` set q \<or> ((\<exists>d. walk adj s d k) \<and> k \<notin> vis)"
  have pend: "?pend ((nid, lv) # queue) visited k \<longleftrightarrow> k = nid \<or> ?pend q' vis' k"
    using reach_new nv new unfolding q' vis' by (auto simp add: image_Un image_image)
  show ?case
  proof (cases "k = nid")
    case True
    show ?thesis
      unfolding unfold IH using True dist
      by (cases "ns nid") (simp_all add: update_level_apply relax_level_idem)
  next
    case False
    from False pend have p: "?pend ((nid, lv) # queue) visited k \<longleftrightarrow> ?pend q' vis' k"
      by blast
    have u: "update_level ns nid lv k = ns k" using False by (simp add: update_level_apply)
    show ?thesis unfolding unfold IH u using p by presburger
  qed
qed

lemma bfs_invariant_start: "bfs_invariant adj s [(s, 0)] {s}"
  by (auto simp add: bfs_invariant_def intro: walk_start)

lemma bfs_from_source:
  "bfs_levels adj [(s, 0)] {s} ns k =
     (if \<exists>d. walk adj s d k
      then map_option (relax_level (int (bfs_distance adj {s} k))) (ns k)
      else ns k)"
  using bfs_levels_result [OF bfs_invariant_start, of adj s ns k] walk_start [of adj s]
  by auto

text \<open>The searches from all registered sources, one after the other.\<close>

lemma Least_either:
  fixes A B :: "nat \<Rightarrow> bool"
  assumes "\<exists>d. A d" and "\<exists>d. B d"
  shows "(LEAST d. A d \<or> B d) = min (LEAST d. A d) (LEAST d. B d)"
proof (rule Least_equality)
  from assms have a: "A (LEAST d. A d)" and b: "B (LEAST d. B d)"
    by (auto intro: LeastI_ex)
  show "A (min (LEAST d. A d) (LEAST d. B d)) \<or> B (min (LEAST d. A d) (LEAST d. B d))"
    using a b by (auto simp add: min_def)
  fix d assume "A d \<or> B d"
  thus "min (LEAST d. A d) (LEAST d. B d) \<le> d"
    by (auto simp add: min_le_iff_disj intro: Least_le)
qed

lemma reached_from_insert:
  "reached_from adj (insert s S) k \<longleftrightarrow> reached_from adj S k \<or> (\<exists>d. walk adj s d k)"
  by (auto simp add: reached_from_def)

lemma bfs_distance_insert:
  "bfs_distance adj (insert s S) k =
     (if reached_from adj (S) k
      then if \<exists>d. walk adj s d k
           then min (bfs_distance adj (S) k) (bfs_distance adj {s} k)
           else bfs_distance adj (S) k
      else bfs_distance adj {s} k)"
proof -
  have split: "(\<exists>s' \<in> insert s S. walk adj s' d k) \<longleftrightarrow>
                (\<exists>s' \<in> S. walk adj s' d k) \<or> walk adj s d k" for d
    by auto
  show ?thesis
  proof (cases "reached_from adj (S) k")
    case True
    hence A: "\<exists>d. \<exists>s' \<in> S. walk adj s' d k" by (auto simp add: reached_from_def)
    show ?thesis
    proof (cases "\<exists>d. walk adj s d k")
      case True
      from Least_either [OF A True] \<open>reached_from adj (S) k\<close> True
      show ?thesis unfolding bfs_distance_def split by simp
    next
      case False
      hence "(\<lambda>d. (\<exists>s' \<in> S. walk adj s' d k) \<or> walk adj s d k) =
             (\<lambda>d. \<exists>s' \<in> S. walk adj s' d k)" by auto
      with \<open>reached_from adj (S) k\<close> False
      show ?thesis unfolding bfs_distance_def split by simp
    qed
  next
    case False
    hence "(\<lambda>d. (\<exists>s' \<in> S. walk adj s' d k) \<or> walk adj s d k) = (\<lambda>d. walk adj s d k)"
      by (auto simp add: reached_from_def)
    with False show ?thesis unfolding bfs_distance_def split by simp
  qed
qed

lemma levels_after_sources:
  assumes zero: "\<forall>k n. ns0 k = Some n \<and> node_type n = ''Source'' \<longrightarrow> level n = 0"
  shows "fold (bfs_pass adj) ps (reset_levels ns0) k =
     map_option (\<lambda>n0. n0 \<lparr> level :=
         (if node_type n0 = ''Source'' then 0
          else if reached_from adj (set ps) k then int (bfs_distance adj (set ps) k)
          else - 1) \<rparr>) (ns0 k)"
proof (induction ps rule: rev_induct)
  case Nil
  show ?case
  proof (cases "ns0 k")
    case None thus ?thesis by (simp add: reset_levels_def)
  next
    case (Some n0)
    with zero have "node_type n0 = ''Source'' \<Longrightarrow> level n0 = 0" by blast
    with Some show ?thesis by (auto simp add: reset_levels_def reached_from_def)
  qed
next
  case (snoc s ps)
  have step: "fold (bfs_pass adj) (ps @ [s]) (reset_levels ns0) k =
      (if \<exists>d. walk adj s d k
       then map_option (relax_level (int (bfs_distance adj {s} k)))
              (fold (bfs_pass adj) ps (reset_levels ns0) k)
       else fold (bfs_pass adj) ps (reset_levels ns0) k)"
    by (simp add: bfs_pass_def bfs_from_source del: bfs_levels.simps)
  show ?case
  proof (cases "ns0 k")
    case None thus ?thesis unfolding step snoc.IH by simp
  next
    case (Some n0)
    show ?thesis
    proof (cases "\<exists>d. walk adj s d k")
      case False
      thus ?thesis unfolding step snoc.IH
        by (simp add: Some reached_from_insert bfs_distance_insert)
    next
      case True
      thus ?thesis unfolding step snoc.IH
        by (simp add: Some reached_from_insert bfs_distance_insert relax_level_def min_def)
    qed
  qed
qed

lemma bfs_distance_shortest:
  assumes "reached_from adj S k"
  shows "(\<exists>s \<in> S. walk adj s (bfs_distance adj S k) k) \<and>
         (\<forall>s \<in> S. \<forall>d. walk adj s d k \<longrightarrow> bfs_distance adj S k \<le> d)"
proof -
  from assms have ex: "\<exists>d. \<exists>s \<in> S. walk adj s d k" by (auto simp add: reached_from_def)
  from LeastI_ex [OF ex] have "\<exists>s \<in> S. walk adj s (bfs_distance adj S k) k"
    by (simp add: bfs_distance_def)
  moreover have "bfs_distance adj S k \<le> d" if "s \<in> S" "walk adj s d k" for s d
    unfolding bfs_distance_def using that by (intro Least_le) blast
  ultimately show ?thesis by blast
qed

lemma calculate_network_levels_nodes:
  assumes "sources_consistent g"
  shows "graph_nodes (calculate_network_levels g) k =
     map_option (\<lambda>n0. n0 \<lparr> level :=
         (if node_type n0 = ''Source'' then 0
          else if reached_from (adjacency g) (source_nodes g) k
               then int (bfs_distance (adjacency g) (source_nodes g) k)
          else - 1) \<rparr>) (graph_nodes g k)"
proof -
  from assms have z: "\<forall>k n. graph_nodes g k = Some n \<and> node_type n = ''Source'' \<longrightarrow> level n = 0"
    and s: "set (sources g) = source_nodes g"
    unfolding sources_consistent_def by blast+
  have "graph_nodes (calculate_network_levels g) =
          fold (bfs_pass (adjacency g)) (sources g) (reset_levels (graph_nodes g))"
    by (simp add: calculate_network_levels_def bfs_pass_def [abs_def])
  thus ?thesis
    unfolding s [symmetric] using levels_after_sources [OF z, of "adjacency g" "sources g" k]
    by simp
qed

text \<open>
  C7. In a graph whose registered sources are its nodes of type Source, each at level 0 (as
  \<open>add_node\<close> leaves them), after \<open>calculate_network_levels\<close> every node of type Source has
  level 0; every other node that some source reaches has as level the number of edges of a
  shortest directed walk from a source, hence a level \<open>\<ge> 0\<close>; and every other node that no
  source reaches has level -1.
\<close>

theorem network_levels_are_source_distances:
  assumes cons: "sources_consistent g"
    and n: "graph_nodes (calculate_network_levels g) k = Some n"
  shows "(node_type n = ''Source'' \<longrightarrow> level n = 0) \<and>
         (node_type n \<noteq> ''Source'' \<and> reached_from (adjacency g) (source_nodes g) k \<longrightarrow>
            0 \<le> level n \<and>
            (\<exists>s \<in> source_nodes g. walk (adjacency g) s (nat (level n)) k) \<and>
            (\<forall>s \<in> source_nodes g. \<forall>d. walk (adjacency g) s d k \<longrightarrow> level n \<le> int d)) \<and>
         (node_type n \<noteq> ''Source'' \<and> \<not> reached_from (adjacency g) (source_nodes g) k \<longrightarrow>
            level n = - 1)"
proof -
  from n obtain n0 where n0: "graph_nodes g k = Some n0"
    and eq: "n = n0 \<lparr> level :=
         (if node_type n0 = ''Source'' then 0
          else if reached_from (adjacency g) (source_nodes g) k
               then int (bfs_distance (adjacency g) (source_nodes g) k)
          else - 1) \<rparr>"
    unfolding calculate_network_levels_nodes [OF cons] by auto
  have ty: "node_type n = node_type n0" unfolding eq by simp
  show ?thesis
  proof (intro conjI impI)
    assume "node_type n = ''Source''"
    thus "level n = 0" unfolding eq by simp
  next
    assume a: "node_type n \<noteq> ''Source'' \<and> reached_from (adjacency g) (source_nodes g) k"
    hence lv: "level n = int (bfs_distance (adjacency g) (source_nodes g) k)"
      using ty unfolding eq by simp
    from bfs_distance_shortest [of "adjacency g" "source_nodes g" k] a
    have sh: "\<exists>s \<in> source_nodes g. walk (adjacency g) s (bfs_distance (adjacency g) (source_nodes g) k) k"
      "\<forall>s \<in> source_nodes g. \<forall>d. walk (adjacency g) s d k \<longrightarrow>
          bfs_distance (adjacency g) (source_nodes g) k \<le> d" by blast+
    show "0 \<le> level n" unfolding lv by simp
    show "\<exists>s \<in> source_nodes g. walk (adjacency g) s (nat (level n)) k"
      unfolding lv using sh(1) by simp
    show "\<forall>s \<in> source_nodes g. \<forall>d. walk (adjacency g) s d k \<longrightarrow> level n \<le> int d"
      unfolding lv using sh(2) by simp
  next
    assume "node_type n \<noteq> ''Source'' \<and> \<not> reached_from (adjacency g) (source_nodes g) k"
    thus "level n = - 1" using ty unfolding eq by simp
  qed
qed

text \<open>
  The hypothesis of the theorem is the state of every graph built by \<open>add_node\<close> from
  nodes of distinct identities, and \<open>add_edge\<close>, \<open>remove_edge\<close> and
  \<open>calculate_network_levels\<close> keep it.
\<close>

lemma sources_consistent_same_kinds:
  assumes "sources_consistent g" and "sources g' = sources g"
    and "\<And>k. map_option (\<lambda>n. (node_type n, level n)) (graph_nodes g' k) =
              map_option (\<lambda>n. (node_type n, level n)) (graph_nodes g k)"
  shows "sources_consistent g'"
proof -
  have same: "(\<exists>n. graph_nodes g' k = Some n \<and> node_type n = t \<and> level n = l) \<longleftrightarrow>
              (\<exists>n. graph_nodes g k = Some n \<and> node_type n = t \<and> level n = l)" for k t l
    using assms(3) [of k] by (cases "graph_nodes g k"; cases "graph_nodes g' k") auto
  have src: "source_nodes g' = source_nodes g"
    unfolding source_nodes_def using same by (metis (no_types, opaque_lifting))
  have "level n = 0" if "graph_nodes g' k = Some n" "node_type n = ''Source''" for k n
  proof -
    from that same [of k "''Source''" "level n"] obtain m where
      "graph_nodes g k = Some m" "node_type m = ''Source''" "level m = level n" by blast
    with assms(1) show ?thesis unfolding sources_consistent_def by metis
  qed
  with assms(1,2) src show ?thesis unfolding sources_consistent_def by auto
qed

lemma sources_consistent_init: "sources_consistent TopologyGraph_init"
  by (simp add: sources_consistent_def source_nodes_def TopologyGraph_init_def)

lemma sources_consistent_add_node:
  assumes "sources_consistent g"
    and "node_type node = ''Source'' \<or> node_id node \<notin> source_nodes g"
  shows "sources_consistent (add_node g node)"
  using assms unfolding sources_consistent_def source_nodes_def add_node_def
  by (auto split: if_splits)

lemma sources_consistent_add_edge:
  assumes "sources_consistent g"
  shows "sources_consistent (add_edge g edge)"
proof (rule sources_consistent_same_kinds [OF assms])
  show "sources (add_edge g edge) = sources g"
    by (simp add: add_edge_def Let_def split: option.splits)
  fix k
  show "map_option (\<lambda>n. (node_type n, level n)) (graph_nodes (add_edge g edge) k) =
        map_option (\<lambda>n. (node_type n, level n)) (graph_nodes g k)"
    by (auto simp add: add_edge_def Let_def split: option.splits if_splits)
qed

lemma sources_consistent_remove_edge:
  assumes "sources_consistent g"
  shows "sources_consistent (remove_edge g eid)"
proof (rule sources_consistent_same_kinds [OF assms])
  show "sources (remove_edge g eid) = sources g"
    by (simp add: remove_edge_def Let_def split: option.splits)
  fix k
  show "map_option (\<lambda>n. (node_type n, level n)) (graph_nodes (remove_edge g eid) k) =
        map_option (\<lambda>n. (node_type n, level n)) (graph_nodes g k)"
    by (auto simp add: remove_edge_def Let_def split: option.splits if_splits)
qed

lemma calculate_network_levels_kinds:
  assumes "sources_consistent g"
  shows "map_option node_type (graph_nodes (calculate_network_levels g) k) =
         map_option node_type (graph_nodes g k)"
    and "graph_nodes (calculate_network_levels g) k = Some n \<Longrightarrow> node_type n = ''Source'' \<Longrightarrow>
         level n = 0"
proof -
  show "map_option node_type (graph_nodes (calculate_network_levels g) k) =
        map_option node_type (graph_nodes g k)"
    unfolding calculate_network_levels_nodes [OF assms]
    by (cases "graph_nodes g k") simp_all
  assume "graph_nodes (calculate_network_levels g) k = Some n" and "node_type n = ''Source''"
  thus "level n = 0"
    unfolding calculate_network_levels_nodes [OF assms]
    by (cases "graph_nodes g k") auto
qed

lemma sources_consistent_calculate:
  assumes "sources_consistent g"
  shows "sources_consistent (calculate_network_levels g)"
proof -
  have src: "sources (calculate_network_levels g) = sources g"
    by (simp add: calculate_network_levels_def)
  have "k \<in> source_nodes (calculate_network_levels g) \<longleftrightarrow> k \<in> source_nodes g" for k
    using calculate_network_levels_kinds(1) [OF assms, of k]
    by (cases "graph_nodes g k"; cases "graph_nodes (calculate_network_levels g) k")
       (auto simp add: source_nodes_def)
  hence ty: "source_nodes (calculate_network_levels g) = source_nodes g" by blast
  from assms have "set (sources g) = source_nodes g" unfolding sources_consistent_def by blast
  with src ty calculate_network_levels_kinds(2) [OF assms]
  show ?thesis unfolding sources_consistent_def by auto
qed

lemma dom_add_node: "dom (graph_nodes (add_node g node)) = insert (node_id node) (dom (graph_nodes g))"
  by (auto simp add: add_node_def)

lemma source_nodes_dom: "source_nodes g \<subseteq> dom (graph_nodes g)"
  by (auto simp add: source_nodes_def)

lemma sources_consistent_add_nodes:
  "sources_consistent g \<Longrightarrow> distinct (map node_id ns) \<Longrightarrow>
   node_id ` set ns \<inter> dom (graph_nodes g) = {} \<Longrightarrow>
   sources_consistent (fold (\<lambda>n g. add_node g n) ns g)"
proof (induction ns arbitrary: g)
  case Nil thus ?case by simp
next
  case (Cons n ns)
  from Cons.prems(3) source_nodes_dom [of g] have "node_id n \<notin> source_nodes g" by auto
  with Cons.prems(1) have c: "sources_consistent (add_node g n)"
    by (intro sources_consistent_add_node) simp_all
  have d: "node_id ` set ns \<inter> dom (graph_nodes (add_node g n)) = {}"
    using Cons.prems(2,3) unfolding dom_add_node by auto
  from Cons.IH [OF c _ d] Cons.prems(2) show ?case by simp
qed

lemma sources_consistent_add_edges:
  "sources_consistent g \<Longrightarrow> sources_consistent (fold (\<lambda>e g. add_edge g e) es g)"
  by (induction es arbitrary: g) (simp_all add: sources_consistent_add_edge)

lemma graph_of_consistent:
  assumes "distinct (map node_id ns)"
  shows "sources_consistent (graph_of ns es)"
  unfolding graph_of_def
  by (intro sources_consistent_add_edges sources_consistent_add_nodes
      sources_consistent_init assms) (simp add: TopologyGraph_init_def)

lemma example_consistent: "sources_consistent example_graph"
  unfolding example_graph_def by (rule graph_of_consistent) (simp add: mk_node_def)

lemma example_adjacency: "adjacency example_graph =
  [(''1'', [''2'']), (''2'', [''3'']), (''3'', [''4'', ''6'']), (''4'', [''5'']), (''6'', [''7''])]"
  by code_simp

lemma example_node_5:
  "graph_nodes (calculate_network_levels example_graph) ''5'' =
     Some ((mk_node ''5'' ''Motor'' ''M-0.4-M1-01'' 0.4) \<lparr> upstream_nodes := [''4''], level := 4 \<rparr>)"
  by code_simp

lemma example_node_8:
  "graph_nodes (calculate_network_levels example_graph) ''8'' =
     Some ((mk_node ''8'' ''Motor'' ''M-0.4-SPARE'' 0.4) \<lparr> level := - 1 \<rparr>)"
  by code_simp

lemma example_sources: "source_nodes example_graph = {''1''}"
proof -
  have "sources example_graph = [''1'']" by code_simp
  moreover from example_consistent
  have "set (sources example_graph) = source_nodes example_graph"
    unfolding sources_consistent_def by blast
  ultimately show ?thesis by simp
qed

lemma example_walk_5: "walk (adjacency example_graph) ''1'' 4 ''5''"
proof -
  let ?adj = "adjacency example_graph"
  have w0: "walk ?adj ''1'' 0 ''1''" by (rule walk_start)
  have w1: "walk ?adj ''1'' (Suc 0) ''2''"
    by (rule walk_edge [OF w0]) (simp add: example_adjacency adjacency_get_def)
  have w2: "walk ?adj ''1'' (Suc (Suc 0)) ''3''"
    by (rule walk_edge [OF w1]) (simp add: example_adjacency adjacency_get_def)
  have w3: "walk ?adj ''1'' (Suc (Suc (Suc 0))) ''4''"
    by (rule walk_edge [OF w2]) (simp add: example_adjacency adjacency_get_def)
  have w4: "walk ?adj ''1'' (Suc (Suc (Suc (Suc 0)))) ''5''"
    by (rule walk_edge [OF w3]) (simp add: example_adjacency adjacency_get_def)
  have "Suc (Suc (Suc (Suc 0))) = 4" by simp
  with w4 show ?thesis by simp
qed

lemma example_reaches_5:
  "reached_from (adjacency example_graph) (source_nodes example_graph) ''5''"
  unfolding reached_from_def example_sources using example_walk_5 by blast

theorem network_levels_are_source_distances_witness:
  "sources_consistent example_graph \<and>
   graph_nodes (calculate_network_levels example_graph) ''5'' =
     Some ((mk_node ''5'' ''Motor'' ''M-0.4-M1-01'' 0.4) \<lparr> upstream_nodes := [''4''], level := 4 \<rparr>) \<and>
   reached_from (adjacency example_graph) (source_nodes example_graph) ''5'' \<and>
   (\<exists>s. s \<in> source_nodes example_graph \<and> walk (adjacency example_graph) s 4 ''5'') \<and>
   \<not> (\<exists>s d. s \<in> source_nodes example_graph \<and> walk (adjacency example_graph) s d ''5'' \<and>
            int d < 4) \<and>
   graph_nodes (calculate_network_levels example_graph) ''8'' =
     Some ((mk_node ''8'' ''Motor'' ''M-0.4-SPARE'' 0.4) \<lparr> level := - 1 \<rparr>) \<and>
   \<not> reached_from (adjacency example_graph) (source_nodes example_graph) ''8''"
proof -
  from network_levels_are_source_distances [OF example_consistent example_node_5]
    example_reaches_5
  have "\<exists>s \<in> source_nodes example_graph. walk (adjacency example_graph) s 4 ''5''"
    and "\<forall>s \<in> source_nodes example_graph. \<forall>d.
           walk (adjacency example_graph) s d ''5'' \<longrightarrow> 4 \<le> int d"
    by (simp_all add: mk_node_def)
  hence five: "\<exists>s. s \<in> source_nodes example_graph \<and> walk (adjacency example_graph) s 4 ''5''"
    "\<not> (\<exists>s d. s \<in> source_nodes example_graph \<and>
            walk (adjacency example_graph) s d ''5'' \<and> int d < 4)"
    by (blast, fastforce)
  from network_levels_are_source_distances [OF example_consistent example_node_8]
  have eight: "\<not> reached_from (adjacency example_graph) (source_nodes example_graph) ''8''"
    by (auto simp add: mk_node_def)
  from example_consistent example_node_5 example_reaches_5 five example_node_8 eight
  show ?thesis by blast
qed

end
